theory Spec2Isabelle
  imports Main "HOL-Library.Extended_Nat" "HOL-Library.Char_ord" "HOL-Library.List_Lexorder"
begin

section \<open>Values, errors and the CSP primitives\<close>

text \<open>
  The puzzle grid mixes integers (cells) and one-character strings (inequality marks), and
  whatever a cell holds can end up in a variable's domain, so domain values are Python
  values of either kind.
\<close>

datatype pyval = IntV int | StrV string

datatype error = LogicError | IndexError | TypeError

type_synonym vid = nat

text \<open>
  Modelled from the spec: the class Variable of cspbase, which propagators.py and
  futoshiki_csp.py import and which is not among the source files. A variable owns its
  original domain (fixed at construction), its current domain (an ordered part of the
  original one) and an optional assigned value. Names are labels that no operation reads;
  they are left out.
\<close>

record variable =
  original_domain :: "pyval list"
  current_domain :: "pyval list"
  assigned_value :: "pyval option"

text \<open>
  Variables are objects shared between the CSP and the scopes of its constraints: a
  variable is referred to by its identity, and the store maps identities to the objects'
  present contents.
\<close>

type_synonym store = "vid \<Rightarrow> variable"

type_synonym prunes = "(vid \<times> pyval) list"

text \<open>Modelled from the spec: the constructor Variable(name, domain) of cspbase.\<close>

definition Variable :: "pyval list \<Rightarrow> variable" where
  "Variable d = \<lparr>original_domain = d, current_domain = d, assigned_value = None\<rparr>"

text \<open>Modelled from the spec: Variable.is_assigned of cspbase.\<close>

definition is_assigned :: "variable \<Rightarrow> bool" where
  "is_assigned v = (assigned_value v \<noteq> None)"

text \<open>Modelled from the spec: Variable.get_assigned_value of cspbase.\<close>

definition get_assigned_value :: "variable \<Rightarrow> pyval option" where
  "get_assigned_value v = assigned_value v"

text \<open>
  Modelled from the spec: Variable.cur_domain of cspbase, the currently valid values, or
  the assigned value alone when the variable is assigned. It builds a fresh list.
\<close>

definition cur_domain :: "variable \<Rightarrow> pyval list" where
  "cur_domain v = (case assigned_value v of Some a \<Rightarrow> [a] | None \<Rightarrow> current_domain v)"

text \<open>
  Modelled from the spec: Variable.prune_value of cspbase, which removes the value from
  the current domain and is a logic error when the value is already absent.
\<close>

definition prune_value :: "variable \<Rightarrow> pyval \<Rightarrow> error + variable" where
  "prune_value v x =
     (if x \<in> set (current_domain v)
      then Inr (v\<lparr>current_domain := removeAll x (current_domain v)\<rparr>)
      else Inl LogicError)"

text \<open>
  Modelled from the spec: the class Constraint of cspbase, an ordered scope of variables
  and the value tuples that satisfy it, each position aligned with the scope.
\<close>

record constraint =
  scope :: "vid list"
  satisfying_tuples :: "pyval list list"

text \<open>Modelled from the spec: Constraint.get_scope of cspbase.\<close>

definition get_scope :: "constraint \<Rightarrow> vid list" where
  "get_scope c = scope c"

text \<open>Modelled from the spec: Constraint.get_unasgn_vars of cspbase.\<close>

definition get_unasgn_vars :: "store \<Rightarrow> constraint \<Rightarrow> vid list" where
  "get_unasgn_vars s c = filter (\<lambda>x. \<not> is_assigned (s x)) (scope c)"

text \<open>Modelled from the spec: Constraint.get_n_unasgn of cspbase.\<close>

definition get_n_unasgn :: "store \<Rightarrow> constraint \<Rightarrow> nat" where
  "get_n_unasgn s c = length (get_unasgn_vars s c)"

text \<open>
  Modelled from the spec: Constraint.check of cspbase, membership of the value tuple in
  the satisfying tuples. The propagator passes what get_assigned_value returned, so the
  entries are optional values.
\<close>

definition check :: "constraint \<Rightarrow> pyval option list \<Rightarrow> bool" where
  "check c vals = (vals \<in> set (map (map Some) (satisfying_tuples c)))"

text \<open>
  Modelled from the spec: Constraint.has_support of cspbase. A tuple supports var = val
  when it carries val at the positions of var and, at every other position, a value of
  the current domain of the variable there.
\<close>

definition tuple_supports :: "store \<Rightarrow> constraint \<Rightarrow> vid \<Rightarrow> pyval \<Rightarrow> pyval list \<Rightarrow> bool" where
  "tuple_supports s c var val t =
     list_all (\<lambda>(x, a). if x = var then a = val else a \<in> set (cur_domain (s x)))
       (zip (scope c) t)"

definition has_support :: "store \<Rightarrow> constraint \<Rightarrow> vid \<Rightarrow> pyval \<Rightarrow> bool" where
  "has_support s c var val = list_ex (tuple_supports s c var val) (satisfying_tuples c)"

text \<open>
  Modelled from the spec: the class CSP of cspbase, the variables and the constraints in
  the order they were added.
\<close>

record csp =
  variables :: "vid list"
  constraints :: "constraint list"

text \<open>Modelled from the spec: CSP.get_all_vars of cspbase, a listing of the variables.\<close>

definition get_all_vars :: "csp \<Rightarrow> vid list" where
  "get_all_vars p = variables p"

text \<open>Modelled from the spec: CSP.get_all_cons of cspbase, a listing of the constraints.\<close>

definition get_all_cons :: "csp \<Rightarrow> constraint list" where
  "get_all_cons p = constraints p"

text \<open>
  Modelled from the spec: CSP.get_cons_with_var of cspbase, the constraints whose scope
  contains the variable; the index it reads is consistent with the scopes.
\<close>

definition get_cons_with_var :: "csp \<Rightarrow> vid \<Rightarrow> constraint list" where
  "get_cons_with_var p v = filter (\<lambda>c. v \<in> set (scope c)) (constraints p)"

text \<open>Modelled from the spec: CSP.add_var of cspbase.\<close>

definition add_var :: "csp \<Rightarrow> vid \<Rightarrow> csp" where
  "add_var p v = p\<lparr>variables := variables p @ [v]\<rparr>"

text \<open>Modelled from the spec: CSP.add_constraint of cspbase.\<close>

definition add_constraint :: "csp \<Rightarrow> constraint \<Rightarrow> csp" where
  "add_constraint p c = p\<lparr>constraints := constraints p @ [c]\<rparr>"

section \<open>propagators.py\<close>

subsection \<open>prop_BT\<close>

text \<open>The loop over the constraints of prop_BT; False is the early return.\<close>

fun bt_cons :: "store \<Rightarrow> constraint list \<Rightarrow> bool" where
  "bt_cons s [] = True"
| "bt_cons s (c # cs) =
     (if get_n_unasgn s c = 0
      then (if \<not> check c (map (\<lambda>var. get_assigned_value (s var)) (get_scope c))
            then False
            else bt_cons s cs)
      else bt_cons s cs)"

definition prop_BT :: "csp \<Rightarrow> vid option \<Rightarrow> store \<Rightarrow> bool \<times> prunes \<times> store" where
  "prop_BT p newVar s =
     (case newVar of
        None \<Rightarrow> (True, [], s)
      | Some v \<Rightarrow> (bt_cons s (get_cons_with_var p v), [], s))"

subsection \<open>prop_FC\<close>

text \<open>The loop over the values of one variable: each value without support is pruned.\<close>

fun fc_values :: "constraint \<Rightarrow> vid \<Rightarrow> pyval list \<Rightarrow> store \<Rightarrow> prunes \<Rightarrow> error + store \<times> prunes" where
  "fc_values c var [] s pruned = Inr (s, pruned)"
| "fc_values c var (val # vals) s pruned =
     (if \<not> has_support s c var val
      then (case prune_value (s var) val of
              Inl e \<Rightarrow> Inl e
            | Inr v' \<Rightarrow> fc_values c var vals (s(var := v')) (pruned @ [(var, val)]))
      else fc_values c var vals s pruned)"

text \<open>The loop over the scope of one constraint; the flag False is the early return.\<close>

fun fc_scope :: "constraint \<Rightarrow> vid list \<Rightarrow> store \<Rightarrow> prunes \<Rightarrow> error + bool \<times> store \<times> prunes" where
  "fc_scope c [] s pruned = Inr (True, s, pruned)"
| "fc_scope c (var # vars) s pruned =
     (if \<not> is_assigned (s var)
      then (case fc_values c var (cur_domain (s var)) s pruned of
              Inl e \<Rightarrow> Inl e
            | Inr (s', pruned') \<Rightarrow>
                if length (cur_domain (s' var)) = 0
                then Inr (False, s', pruned')
                else fc_scope c vars s' pruned')
      else fc_scope c vars s pruned)"

fun fc_cons :: "constraint list \<Rightarrow> store \<Rightarrow> prunes \<Rightarrow> error + bool \<times> prunes \<times> store" where
  "fc_cons [] s pruned = Inr (True, pruned, s)"
| "fc_cons (c # cs) s pruned =
     (if get_n_unasgn s c = 1
      then (case fc_scope c (get_scope c) s pruned of
              Inl e \<Rightarrow> Inl e
            | Inr (ok, s', pruned') \<Rightarrow>
                if ok then fc_cons cs s' pruned' else Inr (False, pruned', s'))
      else fc_cons cs s pruned)"

definition prop_FC :: "csp \<Rightarrow> vid option \<Rightarrow> store \<Rightarrow> error + bool \<times> prunes \<times> store" where
  "prop_FC p newVar s =
     fc_cons (case newVar of None \<Rightarrow> get_all_cons p | Some v \<Rightarrow> get_cons_with_var p v) s []"

subsection \<open>prop_GAC\<close>

text \<open>
  The loop over the values of one variable in prop_GAC; the flag pruned_from is raised by
  a prune.
\<close>

fun gac_values ::
  "constraint \<Rightarrow> vid \<Rightarrow> pyval list \<Rightarrow> store \<Rightarrow> prunes \<Rightarrow> bool \<Rightarrow> error + store \<times> prunes \<times> bool" where
  "gac_values c var [] s pruned pruned_from = Inr (s, pruned, pruned_from)"
| "gac_values c var (val # vals) s pruned pruned_from =
     (if \<not> has_support s c var val
      then (case prune_value (s var) val of
              Inl e \<Rightarrow> Inl e
            | Inr v' \<Rightarrow> gac_values c var vals (s(var := v')) (pruned @ [(var, val)]) True)
      else gac_values c var vals s pruned pruned_from)"

text \<open>
  The loop over the unassigned variables of one constraint. After the values of a
  variable, an empty domain is the early return (flag False); when something was pruned
  from the variable, its constraints are appended to the queue.
\<close>

fun gac_vars ::
  "csp \<Rightarrow> constraint \<Rightarrow> vid list \<Rightarrow> constraint list \<Rightarrow> store \<Rightarrow> prunes
     \<Rightarrow> error + bool \<times> constraint list \<times> store \<times> prunes" where
  "gac_vars p c [] q s pruned = Inr (True, q, s, pruned)"
| "gac_vars p c (var # vars) q s pruned =
     (case gac_values c var (cur_domain (s var)) s pruned False of
        Inl e \<Rightarrow> Inl e
      | Inr (s', pruned', pruned_from) \<Rightarrow>
          if length (cur_domain (s' var)) = 0
          then Inr (False, q, s', pruned')
          else gac_vars p c vars
                 (if pruned_from then q @ get_cons_with_var p var else q) s' pruned')"

text \<open>
  The loop over the queue, which grows while it is traversed: position i is the next
  constraint to take. A run that never ends has no result (None).
\<close>

partial_function (option) gac_queue ::
  "csp \<Rightarrow> constraint list \<Rightarrow> nat \<Rightarrow> store \<Rightarrow> prunes \<Rightarrow> (error + bool \<times> prunes \<times> store) option" where
  "gac_queue p q i s pruned =
     (if i < length q
      then (case gac_vars p (q ! i) (get_unasgn_vars s (q ! i)) q s pruned of
              Inl e \<Rightarrow> Some (Inl e)
            | Inr (ok, q', s', pruned') \<Rightarrow>
                if ok then gac_queue p q' (i + 1) s' pruned'
                else Some (Inr (False, pruned', s')))
      else Some (Inr (True, pruned, s)))"

definition prop_GAC :: "csp \<Rightarrow> vid option \<Rightarrow> store \<Rightarrow> (error + bool \<times> prunes \<times> store) option" where
  "prop_GAC p newVar s =
     gac_queue p (case newVar of None \<Rightarrow> get_all_cons p | Some v \<Rightarrow> get_cons_with_var p v)
       0 s []"

subsection \<open>ord_mrv\<close>

fun mrv_loop :: "store \<Rightarrow> vid list \<Rightarrow> enat \<Rightarrow> vid \<Rightarrow> vid" where
  "mrv_loop s [] dom_count mrv = mrv"
| "mrv_loop s (var # vars) dom_count mrv =
     (let count = fold (\<lambda>val n. n + 1) (cur_domain (s var)) (0 :: nat)
      in if enat count < dom_count
         then mrv_loop s vars (enat count) var
         else mrv_loop s vars dom_count mrv)"

definition ord_mrv :: "csp \<Rightarrow> store \<Rightarrow> error + vid" where
  "ord_mrv p s =
     (case get_all_vars p of
        [] \<Rightarrow> Inl IndexError
      | first # rest \<Rightarrow> Inr (mrv_loop s (get_all_vars p) \<infinity> first))"

section \<open>futoshiki_csp.py\<close>

subsection \<open>Python list access and comparison\<close>

type_synonym grid = "pyval list list"

text \<open>Sequencing of steps that may raise.\<close>

definition bindE :: "error + 'a \<Rightarrow> ('a \<Rightarrow> error + 'b) \<Rightarrow> error + 'b" where
  "bindE m f = (case m of Inl e \<Rightarrow> Inl e | Inr x \<Rightarrow> f x)"

text \<open>A for loop over a list whose body may raise.\<close>

fun foldE :: "('a \<Rightarrow> 's \<Rightarrow> error + 's) \<Rightarrow> 'a list \<Rightarrow> 's \<Rightarrow> error + 's" where
  "foldE f [] st = Inr st"
| "foldE f (x # xs) st = (case f x st of Inl e \<Rightarrow> Inl e | Inr st' \<Rightarrow> foldE f xs st')"

text \<open>xs[i] for an index that is not negative.\<close>

definition py_index :: "'a list \<Rightarrow> nat \<Rightarrow> error + 'a" where
  "py_index xs i = (if i < length xs then Inr (xs ! i) else Inl IndexError)"

text \<open>xs[i] for any integer: a negative index counts from the end.\<close>

definition py_index_int :: "'a list \<Rightarrow> int \<Rightarrow> error + 'a" where
  "py_index_int xs i =
     (if 0 \<le> i \<and> i < int (length xs) then Inr (xs ! nat i)
      else if i < 0 \<and> - int (length xs) \<le> i then Inr (xs ! nat (int (length xs) + i))
      else Inl IndexError)"

text \<open>a < b: numbers by value, strings by code point, a number against a string raises.\<close>

fun py_less :: "pyval \<Rightarrow> pyval \<Rightarrow> error + bool" where
  "py_less (IntV a) (IntV b) = Inr (a < b)"
| "py_less (StrV a) (StrV b) = Inr (a < b)"
| "py_less (IntV a) (StrV b) = Inl TypeError"
| "py_less (StrV a) (IntV b) = Inl TypeError"

text \<open>a > b.\<close>

definition py_greater :: "pyval \<Rightarrow> pyval \<Rightarrow> error + bool" where
  "py_greater a b = py_less b a"

text \<open>Modelled from the spec: the constructor Constraint(name, scope) of cspbase.\<close>

definition Constraint :: "vid list \<Rightarrow> constraint" where
  "Constraint sc = \<lparr>scope = sc, satisfying_tuples = []\<rparr>"

text \<open>Modelled from the spec: Constraint.add_satisfying_tuples of cspbase.\<close>

definition add_satisfying_tuples :: "constraint \<Rightarrow> pyval list list \<Rightarrow> constraint" where
  "add_satisfying_tuples c tuples = c\<lparr>satisfying_tuples := satisfying_tuples c @ tuples\<rparr>"

text \<open>Modelled from the spec: the constructor CSP(name) of cspbase.\<close>

definition CSP :: csp where
  "CSP = \<lparr>variables = [], constraints = []\<rparr>"

subsection \<open>The helpers of the models\<close>

text \<open>
  The Variable objects a model creates live in a heap, a list in creation order; the
  identity of a variable is its position there.
\<close>

type_synonym heap = "variable list"

definition var_setup :: "grid \<Rightarrow> pyval list \<Rightarrow> nat \<Rightarrow> nat \<Rightarrow> error + variable" where
  "var_setup futo_grid var_domain row col =
     bindE (py_index futo_grid row) (\<lambda>r.
     bindE (py_index r col) (\<lambda>cell.
       if cell = IntV 0 then Inr (Variable var_domain) else Inr (Variable [cell])))"

text \<open>The two nested loops over the current domains that collect the ordered pairs.\<close>

fun ineq_inner :: "bool \<Rightarrow> pyval \<Rightarrow> pyval list \<Rightarrow> pyval list list \<Rightarrow> error + pyval list list" where
  "ineq_inner greater_than val1 [] sat_tuples = Inr sat_tuples"
| "ineq_inner greater_than val1 (val2 # rest) sat_tuples =
     bindE (if greater_than then py_greater val1 val2 else py_less val1 val2) (\<lambda>b.
       ineq_inner greater_than val1 rest (if b then sat_tuples @ [[val1, val2]] else sat_tuples))"

definition ineq_constraint :: "csp \<Rightarrow> heap \<Rightarrow> vid \<Rightarrow> vid \<Rightarrow> bool \<Rightarrow> error + csp" where
  "ineq_constraint p h var1 var2 greater_than =
     bindE (foldE (\<lambda>val1. ineq_inner greater_than val1 (cur_domain (h ! var2)))
              (cur_domain (h ! var1)) [])
       (\<lambda>sat_tuples. Inr (add_constraint p (add_satisfying_tuples (Constraint [var1, var2]) sat_tuples)))"

text \<open>The two nested loops of binary_constraint: the pairs of different values.\<close>

definition not_equal_tuples :: "pyval list \<Rightarrow> pyval list \<Rightarrow> pyval list list" where
  "not_equal_tuples dom1 dom2 =
     concat (map (\<lambda>val1. map (\<lambda>val2. [val1, val2]) (filter (\<lambda>val2. val1 \<noteq> val2) dom2)) dom1)"

definition binary_constraint ::
  "csp \<Rightarrow> heap \<Rightarrow> vid list list \<Rightarrow> bool \<Rightarrow> nat \<Rightarrow> nat \<Rightarrow> nat \<Rightarrow> nat \<Rightarrow> nat \<Rightarrow> nat \<Rightarrow> error + csp" where
  "binary_constraint p h vs row_constraint row col1 col2 col row1 row2 =
     bindE (if row_constraint then bindE (py_index vs row) (\<lambda>r. py_index r col1)
            else bindE (py_index vs row1) (\<lambda>r. py_index r col)) (\<lambda>var1.
     bindE (if row_constraint then bindE (py_index vs row) (\<lambda>r. py_index r col2)
            else bindE (py_index vs row2) (\<lambda>r. py_index r col)) (\<lambda>var2.
       Inr (add_constraint p (add_satisfying_tuples (Constraint [var1, var2])
              (not_equal_tuples (cur_domain (h ! var1)) (cur_domain (h ! var2)))))))"

text \<open>The cross product of the pools, built one pool at a time.\<close>

definition every_tuple :: "pyval list list \<Rightarrow> pyval list list" where
  "every_tuple domains =
     fold (\<lambda>pool every. concat (map (\<lambda>x. map (\<lambda>y. x @ [y]) pool) every)) domains [[]]"

text \<open>The test of one tuple: every pair of positions below num_vars is compared.\<close>

definition all_diff_valid :: "pyval list \<Rightarrow> nat \<Rightarrow> error + bool" where
  "all_diff_valid possible_tuple num_vars =
     foldE (\<lambda>i. foldE (\<lambda>j valid.
               bindE (py_index possible_tuple i) (\<lambda>a.
               bindE (py_index possible_tuple j) (\<lambda>b.
                 Inr (if a = b then False else valid))))
             [i + 1 ..< num_vars])
       [0 ..< num_vars] True"

definition all_diff_constraint :: "csp \<Rightarrow> vid list \<Rightarrow> pyval list list \<Rightarrow> nat \<Rightarrow> error + csp" where
  "all_diff_constraint p vars domains num_vars =
     bindE (foldE (\<lambda>possible_tuple sat_tuples.
                    bindE (all_diff_valid possible_tuple num_vars) (\<lambda>valid.
                      Inr (if valid then sat_tuples @ [possible_tuple] else sat_tuples)))
              (every_tuple domains) [])
       (\<lambda>sat_tuples. Inr (add_constraint p (add_satisfying_tuples (Constraint vars) sat_tuples)))"

subsection \<open>futoshiki_csp_model_1\<close>

text \<open>
  One step of the loop over the columns of a row. The state is the heap, the CSP and the
  list of lists variables.
\<close>

definition model_1_cell ::
  "grid \<Rightarrow> pyval list \<Rightarrow> nat \<Rightarrow> nat \<Rightarrow> heap \<times> csp \<times> vid list list \<Rightarrow> error + heap \<times> csp \<times> vid list list" where
  "model_1_cell futo_grid var_domain row col st =
     (case st of (h, p, vs) \<Rightarrow>
        if col mod 2 = 0
        then bindE (var_setup futo_grid var_domain row col) (\<lambda>var.
               Inr (h @ [var], add_var p (length h), vs[row := vs ! row @ [length h]]))
        else if col > 0
        then bindE (bindE (py_index futo_grid row) (\<lambda>r. py_index r (col - 1))) (\<lambda>mark.
               if mark = StrV ''<'' \<or> mark = StrV ''>''
               then bindE (py_index_int (vs ! row) (int (col div 2) - 1)) (\<lambda>var1.
                    bindE (py_index_int (vs ! row) (int (col div 2))) (\<lambda>var2.
                    bindE (ineq_constraint p h var1 var2 (mark = StrV ''>'')) (\<lambda>p'.
                      Inr (h, p', vs))))
               else Inr st)
        else Inr st)"

definition model_1_pairs :: "heap \<Rightarrow> vid list list \<Rightarrow> nat \<Rightarrow> csp \<Rightarrow> error + csp" where
  "model_1_pairs h vs n =
     foldE (\<lambda>i. foldE (\<lambda>j. foldE (\<lambda>k p.
              bindE (binary_constraint p h vs True i j k i j k) (\<lambda>p'.
                binary_constraint p' h vs False i j k i j k))
            [j + 1 ..< n]) [0 ..< n]) [0 ..< n]"

definition futoshiki_csp_model_1 :: "grid \<Rightarrow> error + csp \<times> vid list list \<times> heap" where
  "futoshiki_csp_model_1 futo_grid =
     (let n = length futo_grid in
      bindE (py_index futo_grid 0) (\<lambda>row0.
        let num_col = length row0;
            var_domain = map (\<lambda>i. IntV (int i + 1)) [0 ..< n]
        in bindE (foldE (\<lambda>row. foldE (model_1_cell futo_grid var_domain row) [0 ..< num_col])
                    [0 ..< n] ([], CSP, replicate n []))
             (\<lambda>(h, p, vs). bindE (model_1_pairs h vs n p) (\<lambda>p'. Inr (p', vs, h)))))"

subsection \<open>futoshiki_csp_model_2\<close>

text \<open>The state of the first loop has the list of lists row_domains as well.\<close>

definition model_2_cell ::
  "grid \<Rightarrow> pyval list \<Rightarrow> nat \<Rightarrow> nat \<Rightarrow> heap \<times> csp \<times> vid list list \<times> pyval list list list
     \<Rightarrow> error + heap \<times> csp \<times> vid list list \<times> pyval list list list" where
  "model_2_cell futo_grid var_domain row col st =
     (case st of (h, p, vs, row_domains) \<Rightarrow>
        if col mod 2 = 0
        then bindE (var_setup futo_grid var_domain row col) (\<lambda>var.
               Inr (h @ [var], add_var p (length h), vs[row := vs ! row @ [length h]],
                    row_domains[row := row_domains ! row @ [cur_domain var]]))
        else if col > 0
        then bindE (bindE (py_index futo_grid row) (\<lambda>r. py_index r (col - 1))) (\<lambda>mark.
               if mark = StrV ''<'' \<or> mark = StrV ''>''
               then bindE (py_index_int (vs ! row) (int (col div 2) - 1)) (\<lambda>var1.
                    bindE (py_index_int (vs ! row) (int (col div 2))) (\<lambda>var2.
                    bindE (ineq_constraint p h var1 var2 (mark = StrV ''>'')) (\<lambda>p'.
                      Inr (h, p', vs, row_domains))))
               else Inr st)
        else Inr st)"

text \<open>The column i collected, then the all-different constraints of row i and column i.\<close>

definition model_2_lines ::
  "heap \<Rightarrow> vid list list \<Rightarrow> pyval list list list \<Rightarrow> nat \<Rightarrow> nat \<Rightarrow> csp \<Rightarrow> error + csp" where
  "model_2_lines h vs row_domains n i p =
     bindE (foldE (\<lambda>j (col_vars, col_domains).
                    bindE (bindE (py_index vs j) (\<lambda>r. py_index r i)) (\<lambda>var.
                      Inr (col_vars @ [var], col_domains @ [cur_domain (h ! var)])))
              [0 ..< n] ([], []))
       (\<lambda>(col_vars, col_domains).
          bindE (all_diff_constraint p (vs ! i) (row_domains ! i) n) (\<lambda>p'.
            all_diff_constraint p' col_vars col_domains n))"

definition futoshiki_csp_model_2 :: "grid \<Rightarrow> error + csp \<times> vid list list \<times> heap" where
  "futoshiki_csp_model_2 futo_grid =
     (let n = length futo_grid in
      bindE (py_index futo_grid 0) (\<lambda>row0.
        let num_col = length row0;
            var_domain = map (\<lambda>i. IntV (int i + 1)) [0 ..< n]
        in bindE (foldE (\<lambda>row. foldE (model_2_cell futo_grid var_domain row) [0 ..< num_col])
                    [0 ..< n] ([], CSP, replicate n [], replicate n []))
             (\<lambda>(h, p, vs, row_domains).
                bindE (foldE (model_2_lines h vs row_domains n) [0 ..< n] p)
                  (\<lambda>p'. Inr (p', vs, h)))))"

section \<open>Notions used to state the properties\<close>

text \<open>A store is well formed when no current domain lists a value twice.\<close>

definition distinct_domains :: "store \<Rightarrow> bool" where
  "distinct_domains s = (\<forall>x. distinct (current_domain (s x)))"

text \<open>
  The list pruned is a journal of the change from store s0 to store s: no pair occurs in
  it twice, every pair names a value of the current domain in s0, and s is s0 with
  exactly the values of the journal taken out of the current domains.
\<close>

definition journal :: "store \<Rightarrow> prunes \<Rightarrow> store \<Rightarrow> bool" where
  "journal s0 pruned s =
     (distinct pruned
      \<and> list_all (\<lambda>(x, a). a \<in> set (current_domain (s0 x))) pruned
      \<and> (\<forall>x. s x = (s0 x)\<lparr>current_domain :=
                   filter (\<lambda>a. (x, a) \<notin> set pruned) (current_domain (s0 x))\<rparr>))"

text \<open>
  Forward checking as the specification words it: of the constraints taken in order, those
  with one unassigned variable are examined; the values of that variable without support
  in the constraint are pruned together; an empty domain stops with False.
\<close>

definition sole_unassigned :: "store \<Rightarrow> constraint \<Rightarrow> vid" where
  "sole_unassigned s c = hd (get_unasgn_vars s c)"

definition unsupported :: "store \<Rightarrow> constraint \<Rightarrow> vid \<Rightarrow> pyval list" where
  "unsupported s c var = filter (\<lambda>val. \<not> has_support s c var val) (cur_domain (s var))"

definition prune_all :: "store \<Rightarrow> vid \<Rightarrow> pyval list \<Rightarrow> store" where
  "prune_all s var gone =
     s(var := (s var)\<lparr>current_domain :=
                  filter (\<lambda>a. a \<notin> set gone) (current_domain (s var))\<rparr>)"

fun forward_check :: "constraint list \<Rightarrow> store \<Rightarrow> prunes \<Rightarrow> bool \<times> prunes \<times> store" where
  "forward_check [] s pruned = (True, pruned, s)"
| "forward_check (c # cs) s pruned =
     (if get_n_unasgn s c = 1
      then (let var = sole_unassigned s c;
                gone = unsupported s c var;
                s' = prune_all s var gone;
                pruned' = pruned @ map (Pair var) gone
            in if cur_domain (s' var) = [] then (False, pruned', s')
               else forward_check cs s' pruned')
      else forward_check cs s pruned)"

text \<open>The constraints a propagator starts from.\<close>

definition touching :: "csp \<Rightarrow> vid option \<Rightarrow> constraint list" where
  "touching p newVar =
     (case newVar of
        None \<Rightarrow> constraints p
      | Some v \<Rightarrow> filter (\<lambda>c. v \<in> set (scope c)) (constraints p))"

text \<open>A constraint is arc consistent in a store when every value of every unassigned
  variable of its scope has support in it.\<close>

definition arc_consistent :: "store \<Rightarrow> constraint \<Rightarrow> bool" where
  "arc_consistent s c =
     list_all (\<lambda>v. list_all (has_support s c v) (cur_domain (s v))) (get_unasgn_vars s c)"

text \<open>
  One store shrinks to another when only current domains changed and each either lost
  length or stayed as it was.
\<close>

definition shrinks :: "store \<Rightarrow> store \<Rightarrow> bool" where
  "shrinks s s' =
     (\<forall>x. assigned_value (s' x) = assigned_value (s x)
        \<and> original_domain (s' x) = original_domain (s x)
        \<and> length (current_domain (s' x)) \<le> length (current_domain (s x))
        \<and> (length (current_domain (s' x)) = length (current_domain (s x)) \<longrightarrow> s' x = s x))"

text \<open>
  The total length of the current domains of the variables in the scopes of the given
  constraints: the quantity a prune makes smaller.
\<close>

definition domain_mass :: "constraint list \<Rightarrow> store \<Rightarrow> nat" where
  "domain_mass cs s = (\<Sum>x \<in> (\<Union>c \<in> set cs. set (scope c)). length (current_domain (s x)))"

text \<open>The queue invariant of prop_GAC: a constraint of the CSP is still to be taken from
  position i on, or it is arc consistent already.\<close>

definition pending_or_consistent :: "csp \<Rightarrow> constraint list \<Rightarrow> nat \<Rightarrow> store \<Rightarrow> bool" where
  "pending_or_consistent p q i s =
     list_all (\<lambda>c. c \<in> set (drop i q) \<or> arc_consistent s c) (constraints p)"

section \<open>A small instance\<close>

text \<open>
  Two variables and the constraint that they differ. In demo_store both are unassigned,
  the first with the single value 1 left; in demo_assigned both are assigned 1.
\<close>

definition ne_constraint :: constraint where
  "ne_constraint = \<lparr>scope = [0, 1], satisfying_tuples = [[IntV 1, IntV 2], [IntV 2, IntV 1]]\<rparr>"

definition demo_csp :: csp where
  "demo_csp = \<lparr>variables = [0, 1], constraints = [ne_constraint]\<rparr>"

definition demo_store :: store where
  "demo_store = (\<lambda>x. Variable [])(0 := Variable [IntV 1], 1 := Variable [IntV 1, IntV 2])"

definition demo_pruned :: store where
  "demo_pruned = (\<lambda>x. Variable [])
     (0 := Variable [IntV 1],
      1 := \<lparr>original_domain = [IntV 1, IntV 2], current_domain = [IntV 2], assigned_value = None\<rparr>)"

definition demo_assigned :: store where
  "demo_assigned = (\<lambda>x. Variable [])
     (0 := (Variable [IntV 1, IntV 2])\<lparr>assigned_value := Some (IntV 1)\<rparr>,
      1 := (Variable [IntV 1, IntV 2])\<lparr>assigned_value := Some (IntV 1)\<rparr>)"

text \<open>Three unassigned variables with 3, 1 and 2 values left.\<close>

definition mrv_csp :: csp where
  "mrv_csp = \<lparr>variables = [0, 1, 2], constraints = []\<rparr>"

definition mrv_store :: store where
  "mrv_store = (\<lambda>x. Variable [])
     (0 := Variable [IntV 1, IntV 2, IntV 3], 1 := Variable [IntV 2], 2 := Variable [IntV 1, IntV 3])"

text \<open>The same two variables with the first assigned 1 and the second unassigned.\<close>

definition demo_half :: store where
  "demo_half = (\<lambda>x. Variable [])
     (0 := (Variable [IntV 1, IntV 2])\<lparr>assigned_value := Some (IntV 1)\<rparr>,
      1 := Variable [IntV 1, IntV 2])"

definition demo_half_pruned :: store where
  "demo_half_pruned = (\<lambda>x. Variable [])
     (0 := (Variable [IntV 1, IntV 2])\<lparr>assigned_value := Some (IntV 1)\<rparr>,
      1 := \<lparr>original_domain = [IntV 1, IntV 2], current_domain = [IntV 2], assigned_value = None\<rparr>)"

text \<open>The variable that var_setup builds for the cell at a row and a column.\<close>

definition cell_variable :: "grid \<Rightarrow> pyval list \<Rightarrow> nat \<Rightarrow> nat \<Rightarrow> variable" where
  "cell_variable futo_grid var_domain row col =
     Variable (if futo_grid ! row ! col = IntV 0 then var_domain else [futo_grid ! row ! col])"

text \<open>The state of the first loop of model 2 without the list row_domains.\<close>

definition strip_domains ::
  "heap \<times> csp \<times> vid list list \<times> pyval list list list \<Rightarrow> heap \<times> csp \<times> vid list list" where
  "strip_domains st = (case st of (h, p, vs, rd) \<Rightarrow> (h, p, vs))"







text \<open>A 2 by 2 grid with a filled cell and an inequality mark.\<close>

definition grid_2x2 :: grid where
  "grid_2x2 = [[IntV 2, StrV ''<'', IntV 0], [IntV 0, StrV ''.'', IntV 0]]"

text \<open>
  The constraints that were on the queue of prop_GAC at some moment of a run from store s0
  to store s: those it started with and those of a variable that has lost a value.
\<close>

definition on_worklist :: "constraint list \<Rightarrow> store \<Rightarrow> store \<Rightarrow> constraint \<Rightarrow> bool" where
  "on_worklist q0 s0 s c = (c \<in> set q0 \<or> list_ex (\<lambda>x. s x \<noteq> s0 x) (scope c))"

text \<open>The invariant of the queue for a run that starts from any queue q0.\<close>

definition worklist_invariant ::
  "csp \<Rightarrow> constraint list \<Rightarrow> store \<Rightarrow> constraint list \<Rightarrow> nat \<Rightarrow> store \<Rightarrow> bool" where
  "worklist_invariant p q0 s0 q i s =
     list_all (\<lambda>c. c \<in> set (drop i q) \<or> arc_consistent s c)
       (filter (on_worklist q0 s0 s) (constraints p))"

text \<open>Two variables that can only be 1 and must differ: the first domain is wiped out.\<close>

definition demo_wipe :: store where
  "demo_wipe = (\<lambda>x. Variable [])(0 := Variable [IntV 1], 1 := Variable [IntV 1])"

definition demo_wiped :: store where
  "demo_wiped = (\<lambda>x. Variable [])
     (0 := \<lparr>original_domain = [IntV 1], current_domain = [], assigned_value = None\<rparr>,
      1 := Variable [IntV 1])"

text \<open>
  A proper grid: it has a row, every row is as wide as the first, a row has at least as
  many cells as there are rows, and the cells (the even columns) hold integers.
\<close>

fun is_int :: "pyval \<Rightarrow> bool" where
  "is_int (IntV i) = True"
| "is_int (StrV s) = False"

definition proper_grid :: "grid \<Rightarrow> bool" where
  "proper_grid g =
     (g \<noteq> []
      \<and> list_all (\<lambda>r. length r = length (g ! 0)) g
      \<and> length g \<le> (length (g ! 0) + 1) div 2
      \<and> list_all (\<lambda>r. list_all (\<lambda>col. is_int (r ! col)) (filter (\<lambda>col. col mod 2 = 0) [0 ..< length r])) g)"

text \<open>In the first loop of model 2 the lists variables and row_domains grow together.\<close>

definition domains_aligned :: "heap \<times> csp \<times> vid list list \<times> pyval list list list \<Rightarrow> bool" where
  "domains_aligned st =
     (case st of (h, q, vs, rd) \<Rightarrow> length rd = length vs \<and> map length rd = map length vs)"


definition grid_ragged :: grid where
  "grid_ragged = [[IntV 0, StrV ''.'', IntV 0], [IntV 0, StrV ''.'', IntV 0, StrV ''.'', IntV 3]]"

definition grid_short :: grid where
  "grid_short = [[IntV 0, StrV ''.'', IntV 0], [IntV 0]]"

section \<open>Auxiliary facts\<close>

subsection \<open>ord_mrv\<close>

lemma count_fold_gen: "fold (\<lambda>val n. n + 1) xs (k :: nat) = k + length xs"
  by (induction xs arbitrary: k) auto

lemma count_fold: "fold (\<lambda>val. Suc) xs (0 :: nat) = length xs"
  using count_fold_gen [of xs 0] by simp

lemma mrv_loop_step:
  "mrv_loop s (var # vars) dc m =
     (if enat (length (cur_domain (s var))) < dc
      then mrv_loop s vars (enat (length (cur_domain (s var)))) var
      else mrv_loop s vars dc m)"
  by (simp add: count_fold Let_def)

declare mrv_loop.simps(2) [simp del]

lemma mrv_loop_keep:
  "(\<And>x. x \<in> set vs \<Longrightarrow> dc \<le> enat (length (cur_domain (s x)))) \<Longrightarrow> mrv_loop s vs dc m = m"
proof (induction vs arbitrary: dc m)
  case Nil
  show ?case by simp
next
  case (Cons v vs)
  have "\<not> enat (length (cur_domain (s v))) < dc" using Cons.prems [of v] by simp
  moreover have "mrv_loop s vs dc m = m" using Cons.IH [of dc m] Cons.prems by simp
  ultimately show ?case by (simp add: mrv_loop_step)
qed

lemma mrv_loop_pick:
  "\<exists>x \<in> set vs. enat (length (cur_domain (s x))) < dc \<Longrightarrow>
   \<exists>k < length vs. mrv_loop s vs dc m = vs ! k
     \<and> (\<forall>j < length vs. length (cur_domain (s (vs ! k))) \<le> length (cur_domain (s (vs ! j))))
     \<and> (\<forall>j < k. length (cur_domain (s (vs ! k))) < length (cur_domain (s (vs ! j))))
     \<and> enat (length (cur_domain (s (vs ! k)))) < dc"
proof (induction vs arbitrary: dc m)
  case Nil
  then show ?case by simp
next
  case (Cons v vs)
  let ?sz = "\<lambda>x. length (cur_domain (s x))"
  show ?case
  proof (cases "enat (?sz v) < dc")
    case True
    then have step: "mrv_loop s (v # vs) dc m = mrv_loop s vs (enat (?sz v)) v"
      by (simp add: mrv_loop_step)
    show ?thesis
    proof (cases "\<exists>x \<in> set vs. enat (?sz x) < enat (?sz v)")
      case False
      then have all: "\<And>x. x \<in> set vs \<Longrightarrow> ?sz v \<le> ?sz x" by force
      then have "mrv_loop s vs (enat (?sz v)) v = v" by (intro mrv_loop_keep) simp
      with step have r: "mrv_loop s (v # vs) dc m = (v # vs) ! 0" by simp
      have "\<forall>j < length (v # vs). ?sz ((v # vs) ! 0) \<le> ?sz ((v # vs) ! j)"
      proof (intro allI impI)
        fix j assume "j < length (v # vs)"
        then show "?sz ((v # vs) ! 0) \<le> ?sz ((v # vs) ! j)"
          using all by (cases j) auto
      qed
      with r True show ?thesis by (intro exI [of _ 0]) simp
    next
      case ex: True
      from Cons.IH [OF ex, of v] obtain k where k: "k < length vs"
        "mrv_loop s vs (enat (?sz v)) v = vs ! k"
        "\<forall>j < length vs. ?sz (vs ! k) \<le> ?sz (vs ! j)"
        "\<forall>j < k. ?sz (vs ! k) < ?sz (vs ! j)"
        "enat (?sz (vs ! k)) < enat (?sz v)" by blast
      have a: "\<forall>j < length (v # vs). ?sz ((v # vs) ! Suc k) \<le> ?sz ((v # vs) ! j)"
      proof (intro allI impI)
        fix j assume "j < length (v # vs)"
        then show "?sz ((v # vs) ! Suc k) \<le> ?sz ((v # vs) ! j)"
          using k by (cases j) auto
      qed
      have b: "\<forall>j < Suc k. ?sz ((v # vs) ! Suc k) < ?sz ((v # vs) ! j)"
      proof (intro allI impI)
        fix j assume "j < Suc k"
        then show "?sz ((v # vs) ! Suc k) < ?sz ((v # vs) ! j)"
          using k by (cases j) auto
      qed
      have c: "enat (?sz ((v # vs) ! Suc k)) < dc"
        using less_trans [OF k(5) True] by simp
      show ?thesis
        using step k(1,2) a b c by (intro exI [of _ "Suc k"]) simp
    qed
  next
    case False
    then have step: "mrv_loop s (v # vs) dc m = mrv_loop s vs dc m"
      by (simp add: mrv_loop_step)
    from Cons.prems False have ex: "\<exists>x \<in> set vs. enat (?sz x) < dc" by auto
    from Cons.IH [OF ex, of m] obtain k where k: "k < length vs"
      "mrv_loop s vs dc m = vs ! k"
      "\<forall>j < length vs. ?sz (vs ! k) \<le> ?sz (vs ! j)"
      "\<forall>j < k. ?sz (vs ! k) < ?sz (vs ! j)"
      "enat (?sz (vs ! k)) < dc" by blast
    have vk: "?sz (vs ! k) < ?sz v"
    proof -
      have "dc \<le> enat (?sz v)" using False by simp
      with k(5) have "enat (?sz (vs ! k)) < enat (?sz v)" by (rule less_le_trans)
      then show ?thesis by simp
    qed
    have a: "\<forall>j < length (v # vs). ?sz ((v # vs) ! Suc k) \<le> ?sz ((v # vs) ! j)"
    proof (intro allI impI)
      fix j assume "j < length (v # vs)"
      then show "?sz ((v # vs) ! Suc k) \<le> ?sz ((v # vs) ! j)"
        using k vk by (cases j) auto
    qed
    have b: "\<forall>j < Suc k. ?sz ((v # vs) ! Suc k) < ?sz ((v # vs) ! j)"
    proof (intro allI impI)
      fix j assume "j < Suc k"
      then show "?sz ((v # vs) ! Suc k) < ?sz ((v # vs) ! j)"
        using k vk by (cases j) auto
    qed
    show ?thesis
      using step k(1,2,5) a b by (intro exI [of _ "Suc k"]) simp
  qed
qed

subsection \<open>Support and the value loops\<close>

lemma cur_domain_unassigned: "\<not> is_assigned v \<Longrightarrow> cur_domain v = current_domain v"
  by (simp add: is_assigned_def cur_domain_def)

lemma tuple_supports_self:
  "tuple_supports (s(var := v')) c var val = tuple_supports s c var val"
proof (rule ext)
  fix t
  have "(\<lambda>(x, a). if x = var then a = val else a \<in> set (cur_domain ((s(var := v')) x)))
      = (\<lambda>(x, a). if x = var then a = val else a \<in> set (cur_domain (s x)))"
    by (auto simp: fun_eq_iff)
  then show "tuple_supports (s(var := v')) c var val t = tuple_supports s c var val t"
    by (simp add: tuple_supports_def)
qed

lemma has_support_self: "has_support (s(var := v')) c var val = has_support s c var val"
  by (simp add: has_support_def tuple_supports_self)

lemma tuple_supports_cong:
  assumes "\<And>x. x \<in> set (scope c) \<Longrightarrow> cur_domain (s' x) = cur_domain (s x)"
  shows "tuple_supports s' c var val t = tuple_supports s c var val t"
proof -
  have "\<And>x a. (x, a) \<in> set (zip (scope c) t) \<Longrightarrow> cur_domain (s' x) = cur_domain (s x)"
    by (rule assms) (rule set_zip_leftD)
  then show ?thesis
    unfolding tuple_supports_def list_all_iff by auto
qed

lemma has_support_cong:
  assumes "\<And>x. x \<in> set (scope c) \<Longrightarrow> cur_domain (s' x) = cur_domain (s x)"
  shows "has_support s' c var val = has_support s c var val"
proof -
  have "tuple_supports s' c var val = tuple_supports s c var val"
    by (rule ext) (rule tuple_supports_cong, rule assms)
  then show ?thesis by (simp add: has_support_def)
qed

lemma prune_value_member:
  "x \<in> set (current_domain v) \<Longrightarrow>
   prune_value v x = Inr (v\<lparr>current_domain := removeAll x (current_domain v)\<rparr>)"
  by (simp add: prune_value_def)

lemma prune_all_step:
  "prune_all (s(var := (s var)\<lparr>current_domain := removeAll val (current_domain (s var))\<rparr>)) var gone
   = prune_all s var (val # gone)"
proof -
  have "filter (\<lambda>a. a \<notin> set gone) (removeAll val (current_domain (s var)))
      = filter (\<lambda>a. a \<notin> set (val # gone)) (current_domain (s var))"
    by (induction "current_domain (s var)") (auto simp: removeAll_filter_not_eq intro: filter_cong)
  then show ?thesis by (simp add: prune_all_def)
qed

lemma prune_all_nil: "prune_all s var [] = s"
  by (simp add: prune_all_def)

lemma fc_values_char:
  assumes "distinct vals" "set vals \<subseteq> set (current_domain (s var))"
  shows "fc_values c var vals s pr =
           Inr (prune_all s var (filter (\<lambda>val. \<not> has_support s c var val) vals),
                pr @ map (Pair var) (filter (\<lambda>val. \<not> has_support s c var val) vals))"
  using assms
proof (induction vals arbitrary: s pr)
  case Nil
  show ?case by (simp add: prune_all_nil)
next
  case (Cons val vals)
  show ?case
  proof (cases "has_support s c var val")
    case True
    with Cons show ?thesis by simp
  next
    case False
    let ?s1 = "s(var := (s var)\<lparr>current_domain := removeAll val (current_domain (s var))\<rparr>)"
    have mem: "val \<in> set (current_domain (s var))" using Cons.prems by simp
    have sub: "set vals \<subseteq> set (current_domain (?s1 var))" using Cons.prems by auto
    have d: "distinct vals" using Cons.prems by simp
    have sup: "\<And>a. has_support ?s1 c var a = has_support s c var a" by (rule has_support_self)
    have "fc_values c var (val # vals) s pr = fc_values c var vals ?s1 (pr @ [(var, val)])"
      using False mem by (simp add: prune_value_member)
    also have "\<dots> = Inr (prune_all ?s1 var (filter (\<lambda>a. \<not> has_support ?s1 c var a) vals),
                (pr @ [(var, val)]) @ map (Pair var) (filter (\<lambda>a. \<not> has_support ?s1 c var a) vals))"
      by (rule Cons.IH [of ?s1, OF d sub])
    also have "\<dots> = Inr (prune_all s var (filter (\<lambda>a. \<not> has_support s c var a) (val # vals)),
                pr @ map (Pair var) (filter (\<lambda>a. \<not> has_support s c var a) (val # vals)))"
      using False by (simp add: sup prune_all_step)
    finally show ?thesis .
  qed
qed

lemma gac_values_char:
  assumes "distinct vals" "set vals \<subseteq> set (current_domain (s var))"
  shows "gac_values c var vals s pr pf =
           Inr (prune_all s var (filter (\<lambda>val. \<not> has_support s c var val) vals),
                pr @ map (Pair var) (filter (\<lambda>val. \<not> has_support s c var val) vals),
                pf \<or> filter (\<lambda>val. \<not> has_support s c var val) vals \<noteq> [])"
  using assms
proof (induction vals arbitrary: s pr pf)
  case Nil
  show ?case by (simp add: prune_all_nil)
next
  case (Cons val vals)
  show ?case
  proof (cases "has_support s c var val")
    case True
    with Cons show ?thesis by simp
  next
    case False
    let ?s1 = "s(var := (s var)\<lparr>current_domain := removeAll val (current_domain (s var))\<rparr>)"
    have mem: "val \<in> set (current_domain (s var))" using Cons.prems by simp
    have sub: "set vals \<subseteq> set (current_domain (?s1 var))" using Cons.prems by auto
    have d: "distinct vals" using Cons.prems by simp
    have sup: "\<And>a. has_support ?s1 c var a = has_support s c var a" by (rule has_support_self)
    have "gac_values c var (val # vals) s pr pf = gac_values c var vals ?s1 (pr @ [(var, val)]) True"
      using False mem by (simp add: prune_value_member)
    also have "\<dots> = Inr (prune_all ?s1 var (filter (\<lambda>a. \<not> has_support ?s1 c var a) vals),
                (pr @ [(var, val)]) @ map (Pair var) (filter (\<lambda>a. \<not> has_support ?s1 c var a) vals),
                True \<or> filter (\<lambda>a. \<not> has_support ?s1 c var a) vals \<noteq> [])"
      by (rule Cons.IH [of ?s1, OF d sub])
    also have "\<dots> = Inr (prune_all s var (filter (\<lambda>a. \<not> has_support s c var a) (val # vals)),
                pr @ map (Pair var) (filter (\<lambda>a. \<not> has_support s c var a) (val # vals)),
                pf \<or> filter (\<lambda>a. \<not> has_support s c var a) (val # vals) \<noteq> [])"
      using False by (simp add: sup prune_all_step)
    finally show ?thesis .
  qed
qed

lemma journal_refl: "journal s [] s"
  by (simp add: journal_def)

lemma journal_same_fields:
  "journal s0 pr s \<Longrightarrow> assigned_value (s x) = assigned_value (s0 x)
     \<and> original_domain (s x) = original_domain (s0 x)
     \<and> current_domain (s x) = filter (\<lambda>a. (x, a) \<notin> set pr) (current_domain (s0 x))"
proof -
  assume "journal s0 pr s"
  then have "s x = (s0 x)\<lparr>current_domain :=
                   filter (\<lambda>a. (x, a) \<notin> set pr) (current_domain (s0 x))\<rparr>"
    by (simp add: journal_def)
  then show ?thesis by simp
qed

lemma journal_prune:
  assumes wf: "distinct_domains s0" and j: "journal s0 pr s"
    and sub: "set gone \<subseteq> set (current_domain (s var))" and dg: "distinct gone"
  shows "journal s0 (pr @ map (Pair var) gone) (prune_all s var gone)"
proof -
  have cd: "\<And>x. current_domain (s x) = filter (\<lambda>a. (x, a) \<notin> set pr) (current_domain (s0 x))"
    using journal_same_fields [OF j] by simp
  have sx: "\<And>x. s x = (s0 x)\<lparr>current_domain :=
                   filter (\<lambda>a. (x, a) \<notin> set pr) (current_domain (s0 x))\<rparr>"
    using j by (simp add: journal_def)
  have fresh: "\<And>a. a \<in> set gone \<Longrightarrow> (var, a) \<notin> set pr"
    using sub cd [of var] by auto
  have in0: "\<And>a. a \<in> set gone \<Longrightarrow> a \<in> set (current_domain (s0 var))"
    using sub cd [of var] by auto
  have 1: "distinct (pr @ map (Pair var) gone)"
    using j dg fresh by (auto simp: journal_def distinct_map inj_on_def)
  have 2: "list_all (\<lambda>(x, a). a \<in> set (current_domain (s0 x))) (pr @ map (Pair var) gone)"
    using j in0 by (auto simp: journal_def list_all_iff)
  have 3: "prune_all s var gone x = (s0 x)\<lparr>current_domain :=
             filter (\<lambda>a. (x, a) \<notin> set (pr @ map (Pair var) gone)) (current_domain (s0 x))\<rparr>" for x
  proof (cases "x = var")
    case True
    have "filter (\<lambda>a. a \<notin> set gone) (filter (\<lambda>a. (var, a) \<notin> set pr) (current_domain (s0 var)))
        = filter (\<lambda>a. (var, a) \<notin> set (pr @ map (Pair var) gone)) (current_domain (s0 var))"
      by (auto intro: filter_cong)
    with True show ?thesis by (simp add: prune_all_def cd) (simp add: sx)
  next
    case False
    then have "filter (\<lambda>a. (x, a) \<notin> set (pr @ map (Pair var) gone)) (current_domain (s0 x))
        = filter (\<lambda>a. (x, a) \<notin> set pr) (current_domain (s0 x))"
      by (auto intro: filter_cong)
    with False show ?thesis by (simp add: prune_all_def sx [of x])
  qed
  from 1 2 3 show ?thesis by (simp add: journal_def)
qed

subsection \<open>Forward checking\<close>

lemma prune_all_assigned [simp]: "is_assigned (prune_all s var gone x) = is_assigned (s x)"
  by (simp add: prune_all_def is_assigned_def)

lemma prune_all_distinct: "distinct_domains s \<Longrightarrow> distinct_domains (prune_all s var gone)"
  by (simp add: distinct_domains_def prune_all_def)

lemma fc_scope_assigned:
  "(\<And>x. x \<in> set vars \<Longrightarrow> is_assigned (s x)) \<Longrightarrow> fc_scope c vars s pr = Inr (True, s, pr)"
  by (induction vars) auto

lemma fc_scope_one:
  assumes "filter (\<lambda>x. \<not> is_assigned (s x)) vars = [u]" and "distinct (current_domain (s u))"
  shows "fc_scope c vars s pr =
           Inr (cur_domain (prune_all s u (unsupported s c u) u) \<noteq> [],
                prune_all s u (unsupported s c u),
                pr @ map (Pair u) (unsupported s c u))"
  using assms(1)
proof (induction vars)
  case Nil
  then show ?case by simp
next
  case (Cons v vars)
  show ?case
  proof (cases "is_assigned (s v)")
    case True
    with Cons show ?thesis by simp
  next
    case False
    with Cons.prems have vu: "v = u" and rest: "filter (\<lambda>x. \<not> is_assigned (s x)) vars = []"
      by simp_all
    have un: "\<not> is_assigned (s u)" using False vu by simp
    let ?s' = "prune_all s u (unsupported s c u)"
    have vals: "fc_values c u (cur_domain (s u)) s pr = Inr (?s', pr @ map (Pair u) (unsupported s c u))"
      unfolding unsupported_def
      by (rule fc_values_char) (simp_all add: cur_domain_unassigned [OF un] assms(2))
    have all: "\<And>x. x \<in> set vars \<Longrightarrow> is_assigned (?s' x)"
      using rest by (simp add: filter_empty_conv)
    show ?thesis
      using un vu vals fc_scope_assigned [of vars ?s', OF all] by simp
  qed
qed

lemma sole_unassigned_filter:
  "get_n_unasgn s c = 1 \<Longrightarrow>
   filter (\<lambda>x. \<not> is_assigned (s x)) (get_scope c) = [sole_unassigned s c]"
  by (cases "get_unasgn_vars s c")
     (simp_all add: get_n_unasgn_def sole_unassigned_def get_unasgn_vars_def get_scope_def)

lemma sole_unassigned_free:
  "get_n_unasgn s c = 1 \<Longrightarrow> \<not> is_assigned (s (sole_unassigned s c))"
proof -
  assume "get_n_unasgn s c = 1"
  then have "sole_unassigned s c \<in> set (filter (\<lambda>x. \<not> is_assigned (s x)) (get_scope c))"
    by (simp add: sole_unassigned_filter)
  then show ?thesis by simp
qed

lemma get_n_unasgn_prune_all [simp]: "get_n_unasgn (prune_all s var gone) c = get_n_unasgn s c"
  by (simp add: get_n_unasgn_def get_unasgn_vars_def)

lemma fc_cons_forward_check:
  "distinct_domains s \<Longrightarrow> fc_cons cs s pr = Inr (forward_check cs s pr)"
proof (induction cs arbitrary: s pr)
  case Nil
  show ?case by simp
next
  case (Cons c cs)
  show ?case
  proof (cases "get_n_unasgn s c = 1")
    case False
    with Cons show ?thesis by simp
  next
    case True
    let ?u = "sole_unassigned s c"
    let ?s' = "prune_all s ?u (unsupported s c ?u)"
    have d: "distinct (current_domain (s ?u))" using Cons.prems by (simp add: distinct_domains_def)
    have sc: "fc_scope c (get_scope c) s pr =
           Inr (cur_domain (?s' ?u) \<noteq> [], ?s', pr @ map (Pair ?u) (unsupported s c ?u))"
      by (rule fc_scope_one [OF sole_unassigned_filter [OF True] d])
    have ih: "fc_cons cs ?s' (pr @ map (Pair ?u) (unsupported s c ?u))
                = Inr (forward_check cs ?s' (pr @ map (Pair ?u) (unsupported s c ?u)))"
      by (rule Cons.IH) (rule prune_all_distinct [OF Cons.prems])
    show ?thesis using True sc ih by (simp add: Let_def)
  qed
qed

lemma unsupported_sub:
  "\<not> is_assigned (s var) \<Longrightarrow> set (unsupported s c var) \<subseteq> set (current_domain (s var))"
  by (auto simp: unsupported_def cur_domain_unassigned)

lemma journal_distinct:
  "distinct_domains s0 \<Longrightarrow> journal s0 pr s \<Longrightarrow> distinct (current_domain (s x))"
  using journal_same_fields [of s0 pr s x] by (simp add: distinct_domains_def)

lemma unsupported_distinct:
  "\<not> is_assigned (s var) \<Longrightarrow> distinct (current_domain (s var)) \<Longrightarrow> distinct (unsupported s c var)"
  by (simp add: unsupported_def cur_domain_unassigned)

lemma forward_check_journal:
  assumes "distinct_domains s0"
  shows "journal s0 pr s \<Longrightarrow> forward_check cs s pr = (ok, pr', s') \<Longrightarrow> journal s0 pr' s'"
proof (induction cs arbitrary: s pr)
  case Nil
  then show ?case by simp
next
  case (Cons c cs)
  show ?case
  proof (cases "get_n_unasgn s c = 1")
    case False
    with Cons show ?thesis by simp
  next
    case True
    let ?u = "sole_unassigned s c"
    let ?g = "unsupported s c ?u"
    have un: "\<not> is_assigned (s ?u)" by (rule sole_unassigned_free [OF True])
    have sub: "set ?g \<subseteq> set (current_domain (s ?u))"
      using un by (rule unsupported_sub)
    have dg: "distinct ?g"
      using un journal_distinct [OF assms Cons.prems(1)] by (rule unsupported_distinct)
    have j: "journal s0 (pr @ map (Pair ?u) ?g) (prune_all s ?u ?g)"
      using assms Cons.prems(1) sub dg by (rule journal_prune)
    show ?thesis
    proof (cases "cur_domain (prune_all s ?u ?g ?u) = []")
      case e: True
      with Cons.prems(2) True j show ?thesis by (simp add: Let_def)
    next
      case ne: False
      with Cons.prems(2) True have "forward_check cs (prune_all s ?u ?g) (pr @ map (Pair ?u) ?g) = (ok, pr', s')"
        by (simp add: Let_def)
      from Cons.IH [OF j this] show ?thesis .
    qed
  qed
qed

lemma touching_eq:
  "(case newVar of None \<Rightarrow> get_all_cons p | Some v \<Rightarrow> get_cons_with_var p v) = touching p newVar"
  by (simp add: touching_def get_all_cons_def get_cons_with_var_def split: option.split)

subsection \<open>Shrinking stores and the steps of prop_GAC\<close>

lemma shrinks_refl: "shrinks s s"
  by (simp add: shrinks_def)

lemma shrinks_trans: "shrinks s s1 \<Longrightarrow> shrinks s1 s2 \<Longrightarrow> shrinks s s2"
  unfolding shrinks_def
proof (intro allI)
  fix x
  assume a: "\<forall>x. assigned_value (s1 x) = assigned_value (s x)
        \<and> original_domain (s1 x) = original_domain (s x)
        \<and> length (current_domain (s1 x)) \<le> length (current_domain (s x))
        \<and> (length (current_domain (s1 x)) = length (current_domain (s x)) \<longrightarrow> s1 x = s x)"
    and b: "\<forall>x. assigned_value (s2 x) = assigned_value (s1 x)
        \<and> original_domain (s2 x) = original_domain (s1 x)
        \<and> length (current_domain (s2 x)) \<le> length (current_domain (s1 x))
        \<and> (length (current_domain (s2 x)) = length (current_domain (s1 x)) \<longrightarrow> s2 x = s1 x)"
  from a [rule_format, of x] b [rule_format, of x]
  show "assigned_value (s2 x) = assigned_value (s x)
        \<and> original_domain (s2 x) = original_domain (s x)
        \<and> length (current_domain (s2 x)) \<le> length (current_domain (s x))
        \<and> (length (current_domain (s2 x)) = length (current_domain (s x)) \<longrightarrow> s2 x = s x)"
    by auto
qed

lemma shrinks_length: "shrinks s s' \<Longrightarrow> length (current_domain (s' x)) \<le> length (current_domain (s x))"
  by (simp add: shrinks_def)

lemma shrinks_same: "shrinks s s' \<Longrightarrow> length (current_domain (s' x)) = length (current_domain (s x)) \<Longrightarrow> s' x = s x"
  by (simp add: shrinks_def)

lemma shrinks_assigned: "shrinks s s' \<Longrightarrow> is_assigned (s' x) = is_assigned (s x)"
  by (simp add: shrinks_def is_assigned_def)

lemma shrinks_between:
  assumes "shrinks s s1" "shrinks s1 s'" "s' x = s x"
  shows "s1 x = s x"
proof -
  have "length (current_domain (s' x)) \<le> length (current_domain (s1 x))"
    using assms(2) by (rule shrinks_length)
  moreover have "length (current_domain (s1 x)) \<le> length (current_domain (s x))"
    using assms(1) by (rule shrinks_length)
  ultimately have "length (current_domain (s1 x)) = length (current_domain (s x))"
    using assms(3) by simp
  with assms(1) show ?thesis by (rule shrinks_same)
qed

lemma prune_value_shrinks:
  assumes "prune_value (s var) val = Inr v'"
  shows "shrinks s (s(var := v'))" and "length (current_domain v') < length (current_domain (s var))"
proof -
  from assms have mem: "val \<in> set (current_domain (s var))"
    and v': "v' = (s var)\<lparr>current_domain := removeAll val (current_domain (s var))\<rparr>"
    by (auto simp: prune_value_def split: if_splits)
  from mem have "length (removeAll val (current_domain (s var))) < length (current_domain (s var))"
    by (rule length_removeAll_less)
  with v' show "length (current_domain v') < length (current_domain (s var))" by simp
  with v' show "shrinks s (s(var := v'))" by (simp add: shrinks_def)
qed

lemma gac_values_shrinks:
  "gac_values c var vals s pr pf = Inr (s', pr', pf') \<Longrightarrow>
   shrinks s s' \<and> (\<forall>x. x \<noteq> var \<longrightarrow> s' x = s x) \<and> (pf' = (pf \<or> s' var \<noteq> s var))"
proof (induction vals arbitrary: s pr pf)
  case Nil
  then show ?case by (auto simp: shrinks_refl)
next
  case (Cons val vals)
  show ?case
  proof (cases "has_support s c var val")
    case True
    with Cons show ?thesis by simp
  next
    case False
    with Cons.prems obtain v' where pv: "prune_value (s var) val = Inr v'"
      and rec: "gac_values c var vals (s(var := v')) (pr @ [(var, val)]) True = Inr (s', pr', pf')"
      by (auto split: sum.splits)
    note step = Cons.IH [OF rec]
    have ih1: "shrinks (s(var := v')) s'" using step by blast
    have ih2: "\<forall>x. x \<noteq> var \<longrightarrow> s' x = s x" using step by simp
    have ih3: "pf'" using step by simp
    note ih = ih1 ih2 ih3
    have sh: "shrinks s (s(var := v'))" using pv by (rule prune_value_shrinks)
    have lt: "length (current_domain v') < length (current_domain (s var))"
      using pv by (rule prune_value_shrinks)
    have "length (current_domain (s' var)) \<le> length (current_domain ((s(var := v')) var))"
      using ih(1) by (rule shrinks_length)
    with lt have ne: "s' var \<noteq> s var" by auto
    from shrinks_trans [OF sh ih(1)] ih(2,3) ne show ?thesis by simp
  qed
qed

lemma gac_values_supported:
  "gac_values c var vals s pr pf = Inr (s', pr', pf') \<Longrightarrow> s' var = s var \<Longrightarrow>
   list_all (has_support s c var) vals"
proof (induction vals arbitrary: pr pf)
  case Nil
  show ?case by simp
next
  case (Cons val vals)
  show ?case
  proof (cases "has_support s c var val")
    case True
    with Cons show ?thesis by simp
  next
    case False
    with Cons.prems obtain v' where pv: "prune_value (s var) val = Inr v'"
      and rec: "gac_values c var vals (s(var := v')) (pr @ [(var, val)]) True = Inr (s', pr', pf')"
      by (auto split: sum.splits)
    have lt: "length (current_domain v') < length (current_domain (s var))"
      using pv by (rule prune_value_shrinks)
    have "shrinks (s(var := v')) s'" using gac_values_shrinks [OF rec] by blast
    then have "length (current_domain (s' var)) \<le> length (current_domain ((s(var := v')) var))"
      by (rule shrinks_length)
    with lt Cons.prems(2) show ?thesis by simp
  qed
qed

lemma get_cons_with_var_sub: "set (get_cons_with_var p x) \<subseteq> set (constraints p)"
  by (auto simp: get_cons_with_var_def)

lemma gac_vars_step:
  "gac_vars p c vars q s pr = Inr (ok, q', s', pr') \<Longrightarrow>
   shrinks s s' \<and> (\<forall>x. x \<notin> set vars \<longrightarrow> s' x = s x)
   \<and> (\<exists>ext. q' = q @ ext \<and> set ext \<subseteq> set (constraints p)
        \<and> (ok \<longrightarrow> (\<forall>x. s' x \<noteq> s x \<longrightarrow> set (get_cons_with_var p x) \<subseteq> set ext))
        \<and> (ext \<noteq> [] \<longrightarrow> s' \<noteq> s))"
proof (induction vars arbitrary: q s pr)
  case Nil
  then show ?case by (auto simp: shrinks_refl)
next
  case (Cons var vars)
  from Cons.prems obtain s1 pr1 pf where
    vals: "gac_values c var (cur_domain (s var)) s pr False = Inr (s1, pr1, pf)"
    by (auto split: sum.splits)
  from gac_values_shrinks [OF vals] have g: "shrinks s s1" "\<And>x. x \<noteq> var \<Longrightarrow> s1 x = s x"
    "pf = (s1 var \<noteq> s var)" by auto
  show ?case
  proof (cases "length (cur_domain (s1 var)) = 0")
    case True
    with Cons.prems vals have "ok = False" "q' = q" "s' = s1" "pr' = pr1" by auto
    with g show ?thesis by auto
  next
    case False
    let ?q1 = "if pf then q @ get_cons_with_var p var else q"
    from False Cons.prems vals have rec: "gac_vars p c vars ?q1 s1 pr1 = Inr (ok, q', s', pr')"
      by auto
    from Cons.IH [OF rec] obtain ext where ih: "shrinks s1 s'" "\<And>x. x \<notin> set vars \<Longrightarrow> s' x = s1 x"
      "q' = ?q1 @ ext" "set ext \<subseteq> set (constraints p)"
      "ok \<Longrightarrow> (\<forall>x. s' x \<noteq> s1 x \<longrightarrow> set (get_cons_with_var p x) \<subseteq> set ext)"
      "ext \<noteq> [] \<Longrightarrow> s' \<noteq> s1" by auto
    let ?ext = "(if pf then get_cons_with_var p var else []) @ ext"
    have 1: "shrinks s s'" using g(1) ih(1) by (rule shrinks_trans)
    have 2: "\<forall>x. x \<notin> set (var # vars) \<longrightarrow> s' x = s x" using g(2) ih(2) by auto
    have 3: "q' = q @ ?ext" using ih(3) by simp
    have 4: "set ?ext \<subseteq> set (constraints p)" using ih(4) get_cons_with_var_sub [of p var] by auto
    have 5: "ok \<longrightarrow> (\<forall>x. s' x \<noteq> s x \<longrightarrow> set (get_cons_with_var p x) \<subseteq> set ?ext)"
    proof (intro impI allI)
      fix x assume ok: ok and ne: "s' x \<noteq> s x"
      show "set (get_cons_with_var p x) \<subseteq> set ?ext"
      proof (cases "s' x = s1 x")
        case False
        with ih(5) [OF ok] show ?thesis by auto
      next
        case True
        with ne have "s1 x \<noteq> s x" by simp
        with g(2) [of x] have "x = var" by auto
        with \<open>s1 x \<noteq> s x\<close> g(3) have pf by simp
        with \<open>x = var\<close> show ?thesis by auto
      qed
    qed
    have 6: "?ext \<noteq> [] \<longrightarrow> s' \<noteq> s"
    proof (intro impI notI)
      assume ne: "?ext \<noteq> []" and eq: "s' = s"
      have "s1 var = s var" using g(1) ih(1) eq by (intro shrinks_between [of s s1 s']) simp_all
      with g(3) have npf: "\<not> pf" by simp
      have "s1 = s"
      proof (rule ext)
        fix x show "s1 x = s x" using g(2) [of x] \<open>s1 var = s var\<close> by (cases "x = var") auto
      qed
      with ne npf ih(6) eq show False by auto
    qed
    from 1 2 3 4 5 6 show ?thesis by blast
  qed
qed

lemma gac_vars_supported:
  "gac_vars p c vars q s pr = Inr (True, q', s', pr') \<Longrightarrow> (\<And>x. x \<in> set vars \<Longrightarrow> s' x = s x) \<Longrightarrow>
   list_all (\<lambda>v. list_all (has_support s c v) (cur_domain (s v))) vars"
proof (induction vars arbitrary: q pr)
  case Nil
  show ?case by simp
next
  case (Cons var vars)
  from Cons.prems(1) obtain s1 pr1 pf where
    vals: "gac_values c var (cur_domain (s var)) s pr False = Inr (s1, pr1, pf)"
    by (auto split: sum.splits)
  from gac_values_shrinks [OF vals] have g: "shrinks s s1" "\<And>x. x \<noteq> var \<Longrightarrow> s1 x = s x"
    by auto
  let ?q1 = "if pf then q @ get_cons_with_var p var else q"
  from Cons.prems(1) vals have rec: "gac_vars p c vars ?q1 s1 pr1 = Inr (True, q', s', pr')"
    by (auto split: if_splits)
  from gac_vars_step [OF rec] have sh: "shrinks s1 s'" by simp
  have "s' var = s var" using Cons.prems(2) by simp
  with g(1) sh have v: "s1 var = s var" by (intro shrinks_between [of s s1 s'])
  have eq: "s1 = s"
  proof (rule ext)
    fix x show "s1 x = s x" using g(2) [of x] v by (cases "x = var") auto
  qed
  have a: "list_all (has_support s c var) (cur_domain (s var))"
    using vals v by (rule gac_values_supported)
  have b: "list_all (\<lambda>v. list_all (has_support s c v) (cur_domain (s v))) vars"
    using rec [unfolded eq] Cons.prems(2) by (intro Cons.IH) auto
  from a b show ?case by simp
qed

subsection \<open>The queue of prop_GAC\<close>

lemma domain_mass_mono: "shrinks s s' \<Longrightarrow> domain_mass cs s' \<le> domain_mass cs s"
  unfolding domain_mass_def by (rule sum_mono) (rule shrinks_length)

lemma domain_mass_less:
  assumes "shrinks s s'" "s' x \<noteq> s x" "c \<in> set cs" "x \<in> set (scope c)"
  shows "domain_mass cs s' < domain_mass cs s"
  unfolding domain_mass_def
proof (rule sum_strict_mono_ex1)
  show "finite (\<Union>c \<in> set cs. set (scope c))" by simp
  show "\<forall>x \<in> (\<Union>c \<in> set cs. set (scope c)).
          length (current_domain (s' x)) \<le> length (current_domain (s x))"
    using assms(1) by (simp add: shrinks_length)
  have "length (current_domain (s' x)) \<le> length (current_domain (s x))"
    using assms(1) by (rule shrinks_length)
  moreover have "length (current_domain (s' x)) \<noteq> length (current_domain (s x))"
    using shrinks_same [OF assms(1), of x] assms(2) by blast
  ultimately have "length (current_domain (s' x)) < length (current_domain (s x))" by simp
  then show "\<exists>a \<in> (\<Union>c \<in> set cs. set (scope c)).
          length (current_domain (s' a)) < length (current_domain (s a))"
    using assms(3,4) by blast
qed

lemma gac_queue_total:
  assumes cs: "set (constraints p) \<subseteq> set cs"
  shows "set q \<subseteq> set cs \<Longrightarrow> \<exists>r. gac_queue p q i s pr = Some r"
proof (induction "domain_mass cs s" arbitrary: q i s pr rule: less_induct)
  case less
  note outer = less.hyps
  from less.prems show ?case
  proof (induction "length q - i" arbitrary: i pr rule: less_induct)
    case inner: less
    show ?case
    proof (cases "i < length q")
      case False
      then show ?thesis by (subst gac_queue.simps) simp
    next
      case True
      let ?c = "q ! i"
      show ?thesis
      proof (cases "gac_vars p ?c (get_unasgn_vars s ?c) q s pr")
        case (Inl e)
        with True show ?thesis by (subst gac_queue.simps) simp
      next
        case (Inr res)
        then obtain ok q' s' pr' where
          res: "gac_vars p ?c (get_unasgn_vars s ?c) q s pr = Inr (ok, q', s', pr')"
          by (cases res) auto
        show ?thesis
        proof (cases ok)
          case False
          with True res show ?thesis by (subst gac_queue.simps) simp
        next
          case ok: True
          from gac_vars_step [OF res] obtain ext where st: "shrinks s s'"
            "\<And>x. x \<notin> set (get_unasgn_vars s ?c) \<Longrightarrow> s' x = s x"
            "q' = q @ ext" "set ext \<subseteq> set (constraints p)" "ext \<noteq> [] \<Longrightarrow> s' \<noteq> s"
            by blast
          have unfold: "gac_queue p q i s pr = gac_queue p q' (i + 1) s' pr'"
            using True res ok by (subst gac_queue.simps) simp
          have "\<exists>r. gac_queue p q' (i + 1) s' pr' = Some r"
          proof (cases "s' = s")
            case same: True
            with st(3,5) have "q' = q" by auto
            moreover have "length q - (i + 1) < length q - i" using True by simp
            ultimately show ?thesis using same inner.hyps [of "i + 1" pr'] inner.prems by simp
          next
            case False
            then obtain x where x: "s' x \<noteq> s x" by auto
            with st(2) have "x \<in> set (get_unasgn_vars s ?c)" by blast
            then have xs: "x \<in> set (scope ?c)" by (simp add: get_unasgn_vars_def)
            have cin: "?c \<in> set cs" using True inner.prems by auto
            have "domain_mass cs s' < domain_mass cs s"
              using st(1) x cin xs by (rule domain_mass_less)
            moreover have "set q' \<subseteq> set cs" using st(3,4) inner.prems cs by auto
            ultimately show ?thesis by (rule outer)
          qed
          with unfold show ?thesis by simp
        qed
      qed
    qed
  qed
qed

lemma get_unasgn_vars_cong:
  "(\<And>x. x \<in> set (scope c) \<Longrightarrow> s' x = s x) \<Longrightarrow> get_unasgn_vars s' c = get_unasgn_vars s c"
  unfolding get_unasgn_vars_def by (rule filter_cong) simp_all

lemma arc_consistent_cong:
  assumes "\<And>x. x \<in> set (scope c) \<Longrightarrow> s' x = s x"
  shows "arc_consistent s' c = arc_consistent s c"
proof -
  have u: "get_unasgn_vars s' c = get_unasgn_vars s c" by (rule get_unasgn_vars_cong) (rule assms)
  have h: "\<And>v val. has_support s' c v val = has_support s c v val"
    by (rule has_support_cong) (simp add: assms)
  have d: "\<And>v. v \<in> set (get_unasgn_vars s c) \<Longrightarrow> cur_domain (s' v) = cur_domain (s v)"
    by (simp add: get_unasgn_vars_def assms)
  show ?thesis
    unfolding arc_consistent_def u h list_all_iff using d by auto
qed

lemma gac_step_invariant:
  assumes inv: "pending_or_consistent p q i s" and i: "i < length q"
    and step: "gac_vars p (q ! i) (get_unasgn_vars s (q ! i)) q s pr = Inr (True, q', s', pr')"
  shows "pending_or_consistent p q' (i + 1) s'"
proof -
  from gac_vars_step [OF step] obtain ext where st: "shrinks s s'"
    "q' = q @ ext" "\<And>x. s' x \<noteq> s x \<Longrightarrow> set (get_cons_with_var p x) \<subseteq> set ext"
    by blast
  have dr: "drop (i + 1) q' = drop (i + 1) q @ ext" using st(2) i by simp
  have "c \<in> set (drop (i + 1) q') \<or> arc_consistent s' c" if c: "c \<in> set (constraints p)" for c
  proof (cases "\<exists>x \<in> set (scope c). s' x \<noteq> s x")
    case True
    then obtain x where x: "x \<in> set (scope c)" "s' x \<noteq> s x" by blast
    from x(1) c have "c \<in> set (get_cons_with_var p x)" by (simp add: get_cons_with_var_def)
    with st(3) [OF x(2)] dr show ?thesis by auto
  next
    case False
    then have same: "\<And>x. x \<in> set (scope c) \<Longrightarrow> s' x = s x" by blast
    have ac: "arc_consistent s' c = arc_consistent s c" by (rule arc_consistent_cong) (rule same)
    from inv c have "c \<in> set (drop i q) \<or> arc_consistent s c"
      by (simp add: pending_or_consistent_def list_all_iff)
    then show ?thesis
    proof
      assume "arc_consistent s c"
      with ac show ?thesis by simp
    next
      assume "c \<in> set (drop i q)"
      then have "c = q ! i \<or> c \<in> set (drop (i + 1) q)"
        using Cons_nth_drop_Suc [OF i, symmetric] by auto
      then show ?thesis
      proof
        assume "c \<in> set (drop (i + 1) q)"
        with dr show ?thesis by simp
      next
        assume ci: "c = q ! i"
        have "list_all (\<lambda>v. list_all (has_support s c v) (cur_domain (s v))) (get_unasgn_vars s c)"
          using step [folded ci]
          by (rule gac_vars_supported) (simp add: get_unasgn_vars_def same)
        then have "arc_consistent s c" by (simp add: arc_consistent_def)
        with ac show ?thesis by simp
      qed
    qed
  qed
  then show ?thesis by (simp add: pending_or_consistent_def list_all_iff)
qed

lemma gac_queue_fixpoint:
  assumes run: "gac_queue p q i s pr = Some r"
  shows "pending_or_consistent p q i s \<longrightarrow>
         (\<forall>pr' s'. r = Inr (True, pr', s') \<longrightarrow> list_all (arc_consistent s') (constraints p))"
proof (rule gac_queue.raw_induct [where P = "\<lambda>p q i s pr r. pending_or_consistent p q i s \<longrightarrow>
         (\<forall>pr' s'. r = Inr (True, pr', s') \<longrightarrow> list_all (arc_consistent s') (constraints p))",
         OF _ run], goal_cases)
  case (1 gq p q i s pr r)
  note ih = 1(1) and body = 1(2)
  show ?case
  proof (intro impI allI)
    fix pr' s'
    assume inv: "pending_or_consistent p q i s" and r: "r = Inr (True, pr', s')"
    show "list_all (arc_consistent s') (constraints p)"
    proof (cases "i < length q")
      case False
      with body r inv show ?thesis
        by (auto simp: pending_or_consistent_def list_all_iff)
    next
      case True
      with body r obtain q1 s1 pr1 where
        step: "gac_vars p (q ! i) (get_unasgn_vars s (q ! i)) q s pr = Inr (True, q1, s1, pr1)"
        and rec: "gq p q1 (i + 1) s1 pr1 = Some r"
        by (auto split: sum.splits if_splits)
      have "pending_or_consistent p q1 (i + 1) s1"
        using inv True step by (rule gac_step_invariant)
      with ih [OF rec] r show ?thesis by blast
    qed
  qed
qed

lemma journal_assigned: "journal s0 pr s \<Longrightarrow> is_assigned (s x) = is_assigned (s0 x)"
  using journal_same_fields [of s0 pr s x] by (simp add: is_assigned_def)

lemma gac_vars_journal:
  assumes wf: "distinct_domains s0"
  shows "journal s0 pr s \<Longrightarrow> (\<And>x. x \<in> set vars \<Longrightarrow> \<not> is_assigned (s0 x)) \<Longrightarrow>
         \<exists>ok q' s' pr'. gac_vars p c vars q s pr = Inr (ok, q', s', pr') \<and> journal s0 pr' s'"
proof (induction vars arbitrary: q s pr)
  case Nil
  then show ?case by auto
next
  case (Cons var vars)
  let ?g = "unsupported s c var"
  let ?s1 = "prune_all s var ?g"
  let ?pr1 = "pr @ map (Pair var) ?g"
  have un: "\<not> is_assigned (s var)"
    using Cons.prems(2) [of var] journal_assigned [OF Cons.prems(1), of var] by simp
  have d: "distinct (current_domain (s var))" using wf Cons.prems(1) by (rule journal_distinct)
  have vals: "gac_values c var (cur_domain (s var)) s pr False = Inr (?s1, ?pr1, False \<or> ?g \<noteq> [])"
    unfolding unsupported_def
    by (rule gac_values_char) (simp_all add: cur_domain_unassigned [OF un] d)
  have sub: "set ?g \<subseteq> set (current_domain (s var))" using un by (rule unsupported_sub)
  have dg: "distinct ?g" using un d by (rule unsupported_distinct)
  have j: "journal s0 ?pr1 ?s1" using wf Cons.prems(1) sub dg by (rule journal_prune)
  show ?case
  proof (cases "length (cur_domain (?s1 var)) = 0")
    case True
    with vals j show ?thesis by auto
  next
    case False
    from Cons.IH [OF j, of "if ?g \<noteq> [] then q @ get_cons_with_var p var else q"] Cons.prems(2)
    obtain ok q' s' pr' where
      "gac_vars p c vars (if ?g \<noteq> [] then q @ get_cons_with_var p var else q) ?s1 ?pr1
         = Inr (ok, q', s', pr')" "journal s0 pr' s'"
      by auto
    with vals False show ?thesis by simp
  qed
qed

lemma gac_queue_journal:
  assumes wf: "distinct_domains s0" and run: "gac_queue p q i s pr = Some r"
  shows "journal s0 pr s \<longrightarrow> (\<exists>ok pr' s'. r = Inr (ok, pr', s') \<and> journal s0 pr' s')"
proof (rule gac_queue.raw_induct [where P = "\<lambda>p q i s pr r. journal s0 pr s \<longrightarrow>
         (\<exists>ok pr' s'. r = Inr (ok, pr', s') \<and> journal s0 pr' s')", OF _ run], goal_cases)
  case (1 gq p q i s pr r)
  note ih = 1(1) and body = 1(2)
  show ?case
  proof
    assume j: "journal s0 pr s"
    show "\<exists>ok pr' s'. r = Inr (ok, pr', s') \<and> journal s0 pr' s'"
    proof (cases "i < length q")
      case False
      with body j show ?thesis by auto
    next
      case True
      have "\<And>x. x \<in> set (get_unasgn_vars s (q ! i)) \<Longrightarrow> \<not> is_assigned (s0 x)"
        using journal_assigned [OF j] by (simp add: get_unasgn_vars_def)
      with gac_vars_journal [OF wf j, of "get_unasgn_vars s (q ! i)" p "q ! i" q]
      obtain ok q1 s1 pr1 where
        step: "gac_vars p (q ! i) (get_unasgn_vars s (q ! i)) q s pr = Inr (ok, q1, s1, pr1)"
        and j1: "journal s0 pr1 s1" by blast
      show ?thesis
      proof (cases ok)
        case False
        with body True step j1 show ?thesis by auto
      next
        case ok: True
        with body True step have "gq p q1 (i + 1) s1 pr1 = Some r" by simp
        from ih [OF this] j1 show ?thesis by blast
      qed
    qed
  qed
qed

lemma prop_FC_journal:
  assumes "distinct_domains s"
  shows "\<exists>ok pruned s'. prop_FC p newVar s = Inr (ok, pruned, s') \<and> journal s pruned s'"
proof -
  obtain ok pruned s' where fc: "forward_check (touching p newVar) s [] = (ok, pruned, s')"
    by (cases "forward_check (touching p newVar) s []") auto
  have "journal s pruned s'"
    using assms journal_refl fc by (rule forward_check_journal)
  with fc assms show ?thesis by (simp add: prop_FC_def touching_eq fc_cons_forward_check)
qed

lemma prop_GAC_journal:
  assumes "distinct_domains s"
  shows "\<exists>ok pruned s'. prop_GAC p newVar s = Some (Inr (ok, pruned, s')) \<and> journal s pruned s'"
proof -
  have "set (touching p newVar) \<subseteq> set (constraints p)"
    by (auto simp: touching_def split: option.splits)
  with gac_queue_total [of p "constraints p" "touching p newVar" 0 s "[]"]
  obtain r where r: "gac_queue p (touching p newVar) 0 s [] = Some r" by auto
  from gac_queue_journal [OF assms r] journal_refl [of s] r show ?thesis
    by (auto simp: prop_GAC_def touching_eq)
qed

subsection \<open>The small instance evaluated\<close>

lemmas demo_defs = demo_csp_def demo_store_def demo_pruned_def demo_assigned_def ne_constraint_def
  Variable_def get_all_cons_def get_cons_with_var_def get_unasgn_vars_def get_n_unasgn_def
  get_scope_def is_assigned_def cur_domain_def prune_value_def has_support_def
  tuple_supports_def get_assigned_value_def check_def

lemma demo_gac: "prop_GAC demo_csp None demo_store = Some (Inr (True, [(1, IntV 1)], demo_pruned))"
  by (simp add: prop_GAC_def gac_queue.simps demo_defs fun_upd_twist)

lemma bt_cons_iff:
  "bt_cons s cs =
     (\<not> list_ex (\<lambda>c. get_n_unasgn s c = 0
            \<and> \<not> check c (map (\<lambda>var. get_assigned_value (s var)) (get_scope c))) cs)"
  by (induction cs) auto

lemma demo_store_distinct: "distinct_domains demo_store"
  by (simp add: distinct_domains_def demo_defs)

lemma demo_half_distinct: "distinct_domains demo_half"
  by (simp add: distinct_domains_def demo_half_def Variable_def)

lemma demo_half_fc: "prop_FC demo_csp (Some 0) demo_half = Inr (True, [(1, IntV 1)], demo_half_pruned)"
  by (simp add: prop_FC_def demo_defs demo_half_def demo_half_pruned_def)

lemma demo_half_gac:
  "prop_GAC demo_csp (Some 0) demo_half = Some (Inr (True, [(1, IntV 1)], demo_half_pruned))"
  by (simp add: prop_GAC_def gac_queue.simps demo_defs demo_half_def demo_half_pruned_def)

subsection \<open>Loops that may raise, and the all-different tuples\<close>

lemma bindE_Inr [simp]: "bindE (Inr x) f = f x"
  by (simp add: bindE_def)

lemma bindE_Inl [simp]: "bindE (Inl e) f = Inl e"
  by (simp add: bindE_def)

lemma bindE_eq_Inr: "bindE m f = Inr y \<longleftrightarrow> (\<exists>x. m = Inr x \<and> f x = Inr y)"
  by (cases m) simp_all

lemma foldE_append: "foldE f (xs @ ys) st = bindE (foldE f xs st) (foldE f ys)"
  by (induction xs arbitrary: st) (auto split: sum.splits)


lemma py_index_in [simp]: "i < length xs \<Longrightarrow> py_index xs i = Inr (xs ! i)"
  by (simp add: py_index_def)





lemma every_tuple_step_set:
  "set (fold (\<lambda>pool every. concat (map (\<lambda>x. map (\<lambda>y. x @ [y]) pool) every)) ds acc)
     = {x @ t | x t. x \<in> set acc \<and> list_all2 (\<lambda>a d. a \<in> set d) t ds}"
proof (induction ds arbitrary: acc)
  case Nil
  show ?case by auto
next
  case (Cons d ds)
  have "set (fold (\<lambda>pool every. concat (map (\<lambda>x. map (\<lambda>y. x @ [y]) pool) every)) (d # ds) acc)
      = {x' @ t | x' t. x' \<in> set (concat (map (\<lambda>x. map (\<lambda>y. x @ [y]) d) acc))
                        \<and> list_all2 (\<lambda>a d. a \<in> set d) t ds}"
    by (simp add: Cons.IH)
  also have "\<dots> = {x @ t | x t. x \<in> set acc \<and> list_all2 (\<lambda>a d. a \<in> set d) t (d # ds)}"
  proof (intro set_eqI iffI)
    fix u
    assume "u \<in> {x' @ t | x' t. x' \<in> set (concat (map (\<lambda>x. map (\<lambda>y. x @ [y]) d) acc))
                        \<and> list_all2 (\<lambda>a d. a \<in> set d) t ds}"
    then obtain x y t where "x \<in> set acc" "y \<in> set d" "list_all2 (\<lambda>a d. a \<in> set d) t ds"
      "u = (x @ [y]) @ t" by auto
    then have "u = x @ (y # t)" "list_all2 (\<lambda>a d. a \<in> set d) (y # t) (d # ds)" by simp_all
    with \<open>x \<in> set acc\<close>
    show "u \<in> {x @ t | x t. x \<in> set acc \<and> list_all2 (\<lambda>a d. a \<in> set d) t (d # ds)}" by blast
  next
    fix u
    assume "u \<in> {x @ t | x t. x \<in> set acc \<and> list_all2 (\<lambda>a d. a \<in> set d) t (d # ds)}"
    then obtain x t where x: "x \<in> set acc" and t: "list_all2 (\<lambda>a d. a \<in> set d) t (d # ds)"
      and u: "u = x @ t" by blast
    from t obtain y t' where "t = y # t'" "y \<in> set d" "list_all2 (\<lambda>a d. a \<in> set d) t' ds"
      by (auto simp: list_all2_Cons2)
    with x u have "u = (x @ [y]) @ t'" "x @ [y] \<in> set (concat (map (\<lambda>x. map (\<lambda>y. x @ [y]) d) acc))"
      by auto
    with \<open>list_all2 (\<lambda>a d. a \<in> set d) t' ds\<close>
    show "u \<in> {x' @ t | x' t. x' \<in> set (concat (map (\<lambda>x. map (\<lambda>y. x @ [y]) d) acc))
                        \<and> list_all2 (\<lambda>a d. a \<in> set d) t ds}" by blast
  qed
  finally show ?case .
qed

lemma set_every_tuple: "set (every_tuple ds) = {t. list_all2 (\<lambda>a d. a \<in> set d) t ds}"
  by (simp add: every_tuple_def every_tuple_step_set)

lemma every_tuple_length: "t \<in> set (every_tuple ds) \<Longrightarrow> length t = length ds"
  by (simp add: set_every_tuple list_all2_lengthD)

subsection \<open>The loops of the models\<close>

lemma foldE_invariant:
  assumes "\<And>x st st'. x \<in> set xs \<Longrightarrow> I st \<Longrightarrow> f x st = Inr st' \<Longrightarrow> I st'"
  shows "I st \<Longrightarrow> foldE f xs st = Inr st' \<Longrightarrow> I st'"
  using assms
proof (induction xs arbitrary: st)
  case Nil
  then show ?case by simp
next
  case (Cons x xs)
  from Cons.prems(2) obtain st1 where 1: "f x st = Inr st1" and 2: "foldE f xs st1 = Inr st'"
    by (auto split: sum.splits)
  have "I st1" using Cons.prems(3) [of x st st1] Cons.prems(1) 1 by simp
  then show ?case using 2 Cons.prems(3) by (intro Cons.IH [of st1]) auto
qed

lemma foldE_single: "foldE f [x] st = f x st"
  by (cases "f x st") simp_all

lemma foldE_snoc:
  "foldE f (xs @ [x]) st = Inr st' \<longleftrightarrow> (\<exists>st1. foldE f xs st = Inr st1 \<and> f x st1 = Inr st')"
proof -
  have e: "foldE f [x] = f x" by (rule ext) (rule foldE_single)
  show ?thesis unfolding foldE_append e by (rule bindE_eq_Inr)
qed

lemma foldE_upt_Suc:
  "foldE f [0 ..< Suc c] st = Inr st' \<longleftrightarrow> (\<exists>st1. foldE f [0 ..< c] st = Inr st1 \<and> f c st1 = Inr st')"
  using foldE_snoc [of f "[0 ..< c]" c st st'] by simp

lemma foldE_project:
  assumes "\<And>x st st'. f2 x st = Inr st' \<Longrightarrow> f1 x (pr st) = Inr (pr st')"
  shows "foldE f2 xs st = Inr st' \<Longrightarrow> foldE f1 xs (pr st) = Inr (pr st')"
proof (induction xs arbitrary: st)
  case Nil
  then show ?case by simp
next
  case (Cons x xs)
  from Cons.prems obtain st1 where 1: "f2 x st = Inr st1" and 2: "foldE f2 xs st1 = Inr st'"
    by (auto split: sum.splits)
  from assms [OF 1] Cons.IH [OF 2] show ?case by simp
qed

lemma var_setup_Inr:
  "var_setup g vd row col = Inr var \<Longrightarrow>
   row < length g \<and> col < length (g ! row) \<and> var = cell_variable g vd row col"
  by (auto simp: var_setup_def py_index_def bindE_eq_Inr cell_variable_def split: if_splits)

lemma ineq_constraint_variables:
  "ineq_constraint p h v1 v2 gt = Inr p' \<Longrightarrow> variables p' = variables p"
  by (auto simp: ineq_constraint_def bindE_eq_Inr add_constraint_def)

lemma binary_constraint_variables:
  "binary_constraint p h vs rc row col1 col2 col row1 row2 = Inr p' \<Longrightarrow> variables p' = variables p"
  by (auto simp: binary_constraint_def bindE_eq_Inr add_constraint_def)

lemma all_diff_constraint_variables:
  "all_diff_constraint p vars domains n = Inr p' \<Longrightarrow> variables p' = variables p"
  by (auto simp: all_diff_constraint_def bindE_eq_Inr add_constraint_def)

lemma model_1_cell_step:
  assumes "model_1_cell g vd row col (h, p, vs) = Inr (h', p', vs')"
  shows "(col mod 2 = 0 \<longrightarrow> h' = h @ [cell_variable g vd row col]
             \<and> vs' = vs[row := vs ! row @ [length h]]
             \<and> variables p' = variables p @ [length h])
       \<and> (col mod 2 \<noteq> 0 \<longrightarrow> h' = h \<and> vs' = vs \<and> variables p' = variables p)"
proof (cases "col mod 2 = 0")
  case True
  with assms obtain var where "var_setup g vd row col = Inr var"
    "h' = h @ [var]" "p' = add_var p (length h)" "vs' = vs[row := vs ! row @ [length h]]"
    by (auto simp: model_1_cell_def bindE_eq_Inr)
  with True var_setup_Inr [of g vd row col var] show ?thesis by (simp add: add_var_def)
next
  case False
  with assms show ?thesis
    by (auto simp: model_1_cell_def bindE_eq_Inr split: if_splits dest: ineq_constraint_variables)
qed

lemma model_2_cell_project:
  assumes "model_2_cell g vd row col (h, p, vs, rd) = Inr (h', p', vs', rd')"
  shows "model_1_cell g vd row col (h, p, vs) = Inr (h', p', vs')"
proof (cases "col mod 2 = 0")
  case True
  with assms show ?thesis
    by (cases "var_setup g vd row col") (simp_all add: model_2_cell_def model_1_cell_def)
next
  case odd: False
  show ?thesis
  proof (cases "col > 0")
    case False
    with odd assms show ?thesis by (simp add: model_2_cell_def model_1_cell_def)
  next
    case True
    show ?thesis
    proof (cases "bindE (py_index g row) (\<lambda>r. py_index r (col - 1))")
      case (Inl e)
      with odd True assms show ?thesis by (simp add: model_2_cell_def model_1_cell_def)
    next
      case (Inr mark)
      show ?thesis
      proof (cases "mark = StrV ''<'' \<or> mark = StrV ''>''")
        case False
        with odd True Inr assms show ?thesis by (simp add: model_2_cell_def model_1_cell_def)
      next
        case m: True
        show ?thesis
        proof (cases "py_index_int (vs ! row) (int (col div 2) - 1)")
          case (Inl e)
          with odd True Inr m assms show ?thesis by (simp add: model_2_cell_def model_1_cell_def)
        next
          case v1: (Inr var1)
          show ?thesis
          proof (cases "py_index_int (vs ! row) (int (col div 2))")
            case (Inl e)
            with odd True Inr m v1 assms show ?thesis
              by (simp add: model_2_cell_def model_1_cell_def)
          next
            case v2: (Inr var2)
            with odd True Inr m v1 assms show ?thesis
              by (cases "ineq_constraint p h var1 var2 (mark = StrV ''>'')")
                 (simp_all add: model_2_cell_def model_1_cell_def)
          qed
        qed
      qed
    qed
  qed
qed

lemma half_even: "c mod 2 = 0 \<Longrightarrow> (Suc c + 1) div 2 = Suc (c div 2) \<and> (c + 1) div 2 = c div 2 \<and> 2 * (c div 2) = c"
  by presburger

lemma half_odd: "c mod 2 \<noteq> 0 \<Longrightarrow> (Suc c + 1) div 2 = (c + 1) div 2"
  by presburger

lemma model_1_row:
  "foldE (model_1_cell g vd row) [0 ..< c] (h, p, vs) = Inr (h', p', vs') \<Longrightarrow> row < length vs \<Longrightarrow>
   h' = h @ map (\<lambda>k. cell_variable g vd row (2 * k)) [0 ..< (c + 1) div 2]
   \<and> vs' = vs[row := vs ! row @ [length h ..< length h + (c + 1) div 2]]
   \<and> variables p' = variables p @ [length h ..< length h + (c + 1) div 2]"
proof (induction c arbitrary: h' p' vs')
  case 0
  then show ?case by simp
next
  case (Suc c)
  from Suc.prems(1) obtain h1 p1 vs1 where
    1: "foldE (model_1_cell g vd row) [0 ..< c] (h, p, vs) = Inr (h1, p1, vs1)"
    and 2: "model_1_cell g vd row c (h1, p1, vs1) = Inr (h', p', vs')"
    unfolding foldE_upt_Suc by (metis prod_cases3)
  note ih = Suc.IH [OF 1 Suc.prems(2)]
  note st = model_1_cell_step [OF 2]
  show ?case
  proof (cases "c mod 2 = 0")
    case True
    note e = half_even [OF True]
    have len: "length h1 = length h + c div 2" using ih e by simp
    have row1: "vs1 ! row = vs ! row @ [length h ..< length h + c div 2]"
      using ih e Suc.prems(2) by simp
    from st True have "h' = h1 @ [cell_variable g vd row c]"
      "vs' = vs1[row := vs1 ! row @ [length h1]]" "variables p' = variables p1 @ [length h1]"
      by simp_all
    with ih e len row1 show ?thesis by simp
  next
    case False
    with st ih half_odd [OF False] show ?thesis by simp
  qed
qed

lemma map_upt_shift: "map f [a ..< a + w] = map (\<lambda>k. f (a + k)) [0 ..< w]"
  by (induction w) simp_all

lemma model_1_rows:
  "foldE (\<lambda>row. foldE (model_1_cell g vd row) [0 ..< num_col]) [0 ..< r] ([], CSP, replicate n [])
     = Inr (h, p, vs) \<Longrightarrow> r \<le> n \<Longrightarrow>
   h = map (\<lambda>i. cell_variable g vd (i div ((num_col + 1) div 2)) (2 * (i mod ((num_col + 1) div 2))))
         [0 ..< r * ((num_col + 1) div 2)]
   \<and> vs = map (\<lambda>row. if row < r then [row * ((num_col + 1) div 2) ..< row * ((num_col + 1) div 2) + (num_col + 1) div 2] else [])
          [0 ..< n]
   \<and> variables p = [0 ..< r * ((num_col + 1) div 2)]"
proof (induction r arbitrary: h p vs)
  case 0
  then have "h = []" "p = CSP" "vs = replicate n []" by simp_all
  then show ?case by (simp add: CSP_def map_replicate_const)
next
  case (Suc r)
  let ?W = "(num_col + 1) div 2"
  let ?cv = "\<lambda>i. cell_variable g vd (i div ?W) (2 * (i mod ?W))"
  from Suc.prems(1) obtain h1 p1 vs1 where
    1: "foldE (\<lambda>row. foldE (model_1_cell g vd row) [0 ..< num_col]) [0 ..< r] ([], CSP, replicate n [])
          = Inr (h1, p1, vs1)"
    and 2: "foldE (model_1_cell g vd r) [0 ..< num_col] (h1, p1, vs1) = Inr (h, p, vs)"
    unfolding foldE_upt_Suc by (metis prod_cases3)
  from Suc.prems(2) have rn: "r < n" "r \<le> n" by simp_all
  note ih = Suc.IH [OF 1 rn(2)]
  have lvs1: "length vs1 = n" using ih by simp
  have lh1: "length h1 = r * ?W" using ih by simp
  have row1: "vs1 ! r = []" using ih rn by simp
  note st = model_1_row [OF 2, unfolded lvs1, OF rn(1)]
  have h: "h = map ?cv [0 ..< Suc r * ?W]"
  proof -
    have "map (\<lambda>k. cell_variable g vd r (2 * k)) [0 ..< ?W] = map (\<lambda>k. ?cv (r * ?W + k)) [0 ..< ?W]"
      by (rule map_cong) auto
    also have "\<dots> = map ?cv [r * ?W ..< r * ?W + ?W]" by (rule map_upt_shift [symmetric])
    finally have "h = map ?cv [0 ..< r * ?W] @ map ?cv [r * ?W ..< r * ?W + ?W]"
      using st ih by simp
    also have "\<dots> = map ?cv ([0 ..< r * ?W] @ [r * ?W ..< r * ?W + ?W])" by simp
    also have "[0 ..< r * ?W] @ [r * ?W ..< r * ?W + ?W] = [0 ..< Suc r * ?W]"
      using upt_add_eq_append [of 0 "r * ?W" ?W] by (simp add: add.commute)
    finally show ?thesis .
  qed
  have v: "variables p = [0 ..< Suc r * ?W]"
  proof -
    have "variables p = [0 ..< r * ?W] @ [r * ?W ..< r * ?W + ?W]" using st ih lh1 by simp
    also have "\<dots> = [0 ..< Suc r * ?W]"
      using upt_add_eq_append [of 0 "r * ?W" ?W] by (simp add: add.commute)
    finally show ?thesis .
  qed
  have vs: "vs = map (\<lambda>row. if row < Suc r then [row * ?W ..< row * ?W + ?W] else []) [0 ..< n]"
  proof (rule nth_equalityI)
    show "length vs = length (map (\<lambda>row. if row < Suc r then [row * ?W ..< row * ?W + ?W] else []) [0 ..< n])"
      using st lvs1 by simp
  next
    fix i assume "i < length vs"
    then have i: "i < n" using st lvs1 by simp
    have vsi: "vs ! i = (if i = r then vs1 ! r @ [length h1 ..< length h1 + ?W] else vs1 ! i)"
      using st lvs1 i by (simp add: nth_list_update)
    show "vs ! i = map (\<lambda>row. if row < Suc r then [row * ?W ..< row * ?W + ?W] else []) [0 ..< n] ! i"
      using vsi i ih row1 lh1 by (auto simp: less_Suc_eq)
  qed
  from h v vs show ?case by simp
qed

lemma model_1_pairs_variables:
  assumes "model_1_pairs h vs n p = Inr p'"
  shows "variables p' = variables p"
proof -
  let ?I = "\<lambda>q. variables q = variables p"
  have k: "?I q'" if "?I q"
    "bindE (binary_constraint q h vs True i j k i j k) (\<lambda>p'. binary_constraint p' h vs False i j k i j k) = Inr q'"
    for i j k q q'
    using that by (auto simp: bindE_eq_Inr dest!: binary_constraint_variables)
  have j: "?I q'" if "?I q"
    "foldE (\<lambda>k p. bindE (binary_constraint p h vs True i j k i j k)
                     (\<lambda>p'. binary_constraint p' h vs False i j k i j k)) [j + 1 ..< n] q = Inr q'"
    for i j q q'
    using that(1) that(2) by (rule foldE_invariant [where I = ?I, rotated]) (rule k)
  have i: "?I q'" if "?I q"
    "foldE (\<lambda>j. foldE (\<lambda>k p. bindE (binary_constraint p h vs True i j k i j k)
                     (\<lambda>p'. binary_constraint p' h vs False i j k i j k)) [j + 1 ..< n]) [0 ..< n] q = Inr q'"
    for i q q'
    using that(1) that(2) by (rule foldE_invariant [where I = ?I, rotated]) (rule j)
  have "?I p" by simp
  then show ?thesis
    using assms [unfolded model_1_pairs_def]
    by (rule foldE_invariant [where I = ?I, rotated]) (rule i)
qed

lemma model_2_lines_variables:
  assumes "model_2_lines h vs rd n i p = Inr p'"
  shows "variables p' = variables p"
  using assms
  by (auto simp: model_2_lines_def bindE_eq_Inr dest!: all_diff_constraint_variables)

lemma model_2_lines_loop_variables:
  assumes "foldE (model_2_lines h vs rd n) is p = Inr p'"
  shows "variables p' = variables p"
proof -
  have "variables p = variables p" by simp
  then show ?thesis using assms
    by (rule foldE_invariant [where I = "\<lambda>q. variables q = variables p", rotated])
       (simp add: model_2_lines_variables)
qed

lemma model_2_cell_strip:
  "model_2_cell g vd row col st = Inr st' \<Longrightarrow>
   model_1_cell g vd row col (strip_domains st) = Inr (strip_domains st')"
  by (cases st; cases st') (simp add: strip_domains_def model_2_cell_project)

lemma model_2_rows_strip:
  "foldE (\<lambda>row. foldE (model_2_cell g vd row) cols) rows st = Inr st' \<Longrightarrow>
   foldE (\<lambda>row. foldE (model_1_cell g vd row) cols) rows (strip_domains st) = Inr (strip_domains st')"
  by (rule foldE_project [where pr = strip_domains]) (rule foldE_project, rule model_2_cell_strip)

lemma model_1_rows_result:
  assumes "futoshiki_csp_model_1 g = Inr (p, vs, h)"
  shows "\<exists>p0. foldE (\<lambda>row. foldE (model_1_cell g (map (\<lambda>i. IntV (int i + 1)) [0 ..< length g]) row)
                   [0 ..< length (g ! 0)]) [0 ..< length g] ([], CSP, replicate (length g) [])
              = Inr (h, p0, vs) \<and> variables p = variables p0"
proof -
  from assms obtain row0 st where r0: "py_index g 0 = Inr row0"
    and loop: "foldE (\<lambda>row. foldE (model_1_cell g (map (\<lambda>i. IntV (int i + 1)) [0 ..< length g]) row)
                   [0 ..< length row0]) [0 ..< length g] ([], CSP, replicate (length g) []) = Inr st"
    and fin: "(case st of (h, p, vs) \<Rightarrow> bindE (model_1_pairs h vs (length g) p) (\<lambda>p'. Inr (p', vs, h)))
               = Inr (p, vs, h)"
    unfolding futoshiki_csp_model_1_def Let_def bindE_eq_Inr by blast
  from r0 have row0: "row0 = g ! 0" by (auto simp: py_index_def split: if_splits)
  obtain h1 p1 vs1 where st: "st = (h1, p1, vs1)" by (cases st)
  from fin st obtain p' where "model_1_pairs h1 vs1 (length g) p1 = Inr p'" "p' = p" "vs1 = vs" "h1 = h"
    by (auto simp: bindE_eq_Inr)
  with model_1_pairs_variables [of h1 vs1 "length g" p1 p'] loop st row0 show ?thesis by auto
qed

lemma model_2_rows_result:
  assumes "futoshiki_csp_model_2 g = Inr (p, vs, h)"
  shows "\<exists>p0. foldE (\<lambda>row. foldE (model_1_cell g (map (\<lambda>i. IntV (int i + 1)) [0 ..< length g]) row)
                   [0 ..< length (g ! 0)]) [0 ..< length g] ([], CSP, replicate (length g) [])
              = Inr (h, p0, vs) \<and> variables p = variables p0"
proof -
  from assms obtain row0 st where r0: "py_index g 0 = Inr row0"
    and loop: "foldE (\<lambda>row. foldE (model_2_cell g (map (\<lambda>i. IntV (int i + 1)) [0 ..< length g]) row)
                   [0 ..< length row0]) [0 ..< length g]
                 ([], CSP, replicate (length g) [], replicate (length g) []) = Inr st"
    and fin: "(case st of (h, p, vs, row_domains) \<Rightarrow>
                bindE (foldE (model_2_lines h vs row_domains (length g)) [0 ..< length g] p)
                  (\<lambda>p'. Inr (p', vs, h))) = Inr (p, vs, h)"
    unfolding futoshiki_csp_model_2_def Let_def bindE_eq_Inr by blast
  from r0 have row0: "row0 = g ! 0" by (auto simp: py_index_def split: if_splits)
  obtain h1 p1 vs1 rd1 where st: "st = (h1, p1, vs1, rd1)" by (cases st)
  from fin st obtain p' where
    "foldE (model_2_lines h1 vs1 rd1 (length g)) [0 ..< length g] p1 = Inr p'" "p' = p" "vs1 = vs" "h1 = h"
    by (auto simp: bindE_eq_Inr)
  with model_2_lines_loop_variables [of h1 vs1 rd1 "length g" "[0 ..< length g]" p1 p']
  have v: "variables p = variables p1" "vs1 = vs" "h1 = h" by simp_all
  from model_2_rows_strip [OF loop] st row0 v show ?thesis by (auto simp: strip_domains_def)
qed

lemma upto_as_upt: "map (\<lambda>i. int i + 1) [0 ..< n] = [1 .. int n]"
proof (induction n)
  case 0
  show ?case by simp
next
  case (Suc n)
  have "[1 .. int (Suc n)] = [1 .. int n] @ [int n + 1]"
    using upto_rec2 [of 1 "int n + 1"] by (simp add: add.commute)
  with Suc show ?case by simp
qed

lemma var_domain_upto: "map (\<lambda>i. IntV (int i + 1)) [0 ..< n] = map IntV [1 .. int n]"
  using arg_cong [OF upto_as_upt [of n], of "map IntV"] by (simp add: comp_def)

lemma cells_from_rows:
  assumes loop: "foldE (\<lambda>row. foldE (model_1_cell g vd row) [0 ..< num_col]) [0 ..< n]
                   ([], CSP, replicate n []) = Inr (h, p0, vs)"
    and row: "row < n" and col: "col < num_col" and even: "col mod 2 = 0"
  shows "vs ! row ! (col div 2) \<in> set (variables p0)
       \<and> vs ! row ! (col div 2) < length h
       \<and> h ! (vs ! row ! (col div 2)) = cell_variable g vd row col"
proof -
  let ?W = "(num_col + 1) div 2"
  note r = model_1_rows [OF loop order_refl]
  have k: "col div 2 < ?W" "2 * (col div 2) = col" using col even by presburger+
  have vsr: "vs ! row = [row * ?W ..< row * ?W + ?W]" using r row by simp
  have v: "vs ! row ! (col div 2) = row * ?W + col div 2" using vsr k by simp
  have "row * ?W + col div 2 < row * ?W + ?W" using k by simp
  also have "\<dots> = Suc row * ?W" by simp
  also have "\<dots> \<le> n * ?W" using row by (intro mult_le_mono1) simp
  finally have lt: "row * ?W + col div 2 < n * ?W" .
  have W: "0 < ?W" using k by simp
  have dm: "(row * ?W + col div 2) div ?W = row" "(row * ?W + col div 2) mod ?W = col div 2"
    using k W by simp_all
  have "h ! (row * ?W + col div 2) = cell_variable g vd row (2 * (col div 2))"
    using r lt dm by simp
  with v lt r k show ?thesis by simp
qed

subsection \<open>The 3 by 3 grid\<close>













subsection \<open>How a run of prop_GAC ends\<close>

lemma gac_vars_false:
  "gac_vars p c vars q s pr = Inr (False, q', s', pr') \<Longrightarrow> \<exists>v \<in> set vars. cur_domain (s' v) = []"
proof (induction vars arbitrary: q s pr)
  case Nil
  then show ?case by simp
next
  case (Cons var vars)
  from Cons.prems obtain s1 pr1 pf where
    vals: "gac_values c var (cur_domain (s var)) s pr False = Inr (s1, pr1, pf)"
    by (auto split: sum.splits)
  show ?case
  proof (cases "length (cur_domain (s1 var)) = 0")
    case True
    with Cons.prems vals have "s' = s1" by simp
    with True show ?thesis by simp
  next
    case False
    with Cons.prems vals have
      "gac_vars p c vars (if pf then q @ get_cons_with_var p var else q) s1 pr1 = Inr (False, q', s', pr')"
      by simp
    from Cons.IH [OF this] show ?thesis by auto
  qed
qed

lemma get_unasgn_vars_shrinks: "shrinks s s' \<Longrightarrow> get_unasgn_vars s' c = get_unasgn_vars s c"
  by (simp add: get_unasgn_vars_def shrinks_assigned)

lemma worklist_step:
  assumes inv: "worklist_invariant p q0 s0 q i s" and i: "i < length q"
    and step: "gac_vars p (q ! i) (get_unasgn_vars s (q ! i)) q s pr = Inr (True, q', s', pr')"
  shows "worklist_invariant p q0 s0 q' (i + 1) s'"
proof -
  from gac_vars_step [OF step] obtain ext where st: "shrinks s s'"
    "q' = q @ ext" "\<And>x. s' x \<noteq> s x \<Longrightarrow> set (get_cons_with_var p x) \<subseteq> set ext"
    by blast
  have dr: "drop (i + 1) q' = drop (i + 1) q @ ext" using st(2) i by simp
  have "c \<in> set (drop (i + 1) q') \<or> arc_consistent s' c"
    if c: "c \<in> set (constraints p)" and on: "on_worklist q0 s0 s' c" for c
  proof (cases "\<exists>x \<in> set (scope c). s' x \<noteq> s x")
    case True
    then obtain x where x: "x \<in> set (scope c)" "s' x \<noteq> s x" by blast
    from x(1) c have "c \<in> set (get_cons_with_var p x)" by (simp add: get_cons_with_var_def)
    with st(3) [OF x(2)] dr show ?thesis by auto
  next
    case False
    then have same: "\<And>x. x \<in> set (scope c) \<Longrightarrow> s' x = s x" by blast
    have ac: "arc_consistent s' c = arc_consistent s c" by (rule arc_consistent_cong) (rule same)
    from on same have "on_worklist q0 s0 s c" by (auto simp: on_worklist_def list_ex_iff)
    with inv c have "c \<in> set (drop i q) \<or> arc_consistent s c"
      by (simp add: worklist_invariant_def list_all_iff)
    then show ?thesis
    proof
      assume "arc_consistent s c"
      with ac show ?thesis by simp
    next
      assume "c \<in> set (drop i q)"
      then have "c = q ! i \<or> c \<in> set (drop (i + 1) q)"
        using Cons_nth_drop_Suc [OF i, symmetric] by auto
      then show ?thesis
      proof
        assume "c \<in> set (drop (i + 1) q)"
        with dr show ?thesis by simp
      next
        assume ci: "c = q ! i"
        have "list_all (\<lambda>v. list_all (has_support s c v) (cur_domain (s v))) (get_unasgn_vars s c)"
          using step [folded ci]
          by (rule gac_vars_supported) (simp add: get_unasgn_vars_def same)
        then have "arc_consistent s c" by (simp add: arc_consistent_def)
        with ac show ?thesis by simp
      qed
    qed
  qed
  then show ?thesis by (simp add: worklist_invariant_def list_all_iff)
qed

lemma gac_queue_ending:
  assumes run: "gac_queue p q i s pr = Some r"
  shows "set q \<subseteq> set (constraints p) \<and> worklist_invariant p q0 s0 q i s \<longrightarrow>
         (\<forall>ok pr' s'. r = Inr (ok, pr', s') \<longrightarrow>
            (if ok then list_all (arc_consistent s') (filter (on_worklist q0 s0 s') (constraints p))
             else list_ex (\<lambda>c. list_ex (\<lambda>v. cur_domain (s' v) = []) (get_unasgn_vars s' c))
                    (constraints p)))"
proof (rule gac_queue.raw_induct [where P = "\<lambda>p q i s pr r.
         set q \<subseteq> set (constraints p) \<and> worklist_invariant p q0 s0 q i s \<longrightarrow>
         (\<forall>ok pr' s'. r = Inr (ok, pr', s') \<longrightarrow>
            (if ok then list_all (arc_consistent s') (filter (on_worklist q0 s0 s') (constraints p))
             else list_ex (\<lambda>c. list_ex (\<lambda>v. cur_domain (s' v) = []) (get_unasgn_vars s' c))
                    (constraints p)))", OF _ run], goal_cases)
  case (1 gq p q i s pr r)
  note ih = 1(1) and body = 1(2)
  show ?case
  proof (intro impI allI, elim conjE)
    fix ok pr' s'
    assume sub: "set q \<subseteq> set (constraints p)" and inv: "worklist_invariant p q0 s0 q i s"
      and r: "r = Inr (ok, pr', s')"
    show "if ok then list_all (arc_consistent s') (filter (on_worklist q0 s0 s') (constraints p))
          else list_ex (\<lambda>c. list_ex (\<lambda>v. cur_domain (s' v) = []) (get_unasgn_vars s' c))
                 (constraints p)"
    proof (cases "i < length q")
      case False
      with body r inv show ?thesis
        by (auto simp: worklist_invariant_def list_all_iff)
    next
      case True
      from True body r obtain ok1 q1 s1 pr1 where
        step: "gac_vars p (q ! i) (get_unasgn_vars s (q ! i)) q s pr = Inr (ok1, q1, s1, pr1)"
        by (auto split: sum.splits)
      show ?thesis
      proof (cases ok1)
        case False
        with True body r step have e: "ok = False" "s' = s1" by auto
        from step False have stepF:
          "gac_vars p (q ! i) (get_unasgn_vars s (q ! i)) q s pr = Inr (False, q1, s1, pr1)" by simp
        from gac_vars_false [OF stepF] obtain v where
          v: "v \<in> set (get_unasgn_vars s (q ! i))" "cur_domain (s1 v) = []" by blast
        have "shrinks s s1" using gac_vars_step [OF step] by blast
        then have "get_unasgn_vars s1 (q ! i) = get_unasgn_vars s (q ! i)"
          by (rule get_unasgn_vars_shrinks)
        with v have "\<exists>v \<in> set (get_unasgn_vars s1 (q ! i)). cur_domain (s1 v) = []" by auto
        moreover have "q ! i \<in> set (constraints p)" using True sub by auto
        ultimately have "\<exists>c \<in> set (constraints p).
            \<exists>v \<in> set (get_unasgn_vars s1 c). cur_domain (s1 v) = []" by blast
        with e show ?thesis by (simp add: list_ex_iff)
      next
        case ok1: True
        with True body step have rec: "gq p q1 (i + 1) s1 pr1 = Some r" by simp
        have inv1: "worklist_invariant p q0 s0 q1 (i + 1) s1"
          using inv True step [unfolded ok1 [THEN eqTrueI]] by (rule worklist_step)
        from gac_vars_step [OF step] sub have "set q1 \<subseteq> set (constraints p)" by auto
        with ih [OF rec] inv1 r show ?thesis by blast
      qed
    qed
  qed
qed

lemma worklist_initial: "worklist_invariant p q0 s0 q0 0 s0"
  by (auto simp: worklist_invariant_def on_worklist_def list_all_iff list_ex_iff)

lemma demo_wipe_gac:
  "prop_GAC demo_csp None demo_wipe = Some (Inr (False, [(0, IntV 1)], demo_wiped))"
  by (simp add: prop_GAC_def gac_queue.simps demo_defs demo_wipe_def demo_wiped_def fun_upd_twist)

subsection \<open>The models return on proper grids\<close>

lemma foldE_succeeds:
  assumes "\<And>x st. x \<in> set xs \<Longrightarrow> I st \<Longrightarrow> \<exists>st'. f x st = Inr st' \<and> I st'"
  shows "I st \<Longrightarrow> \<exists>st'. foldE f xs st = Inr st' \<and> I st'"
  using assms
proof (induction xs arbitrary: st)
  case Nil
  then show ?case by simp
next
  case (Cons x xs)
  have "\<exists>st'. f x st = Inr st' \<and> I st'"
    by (rule Cons.prems(2)) (simp, rule Cons.prems(1))
  then obtain st1 where 1: "f x st = Inr st1" and 2: "I st1" by blast
  have "\<exists>st'. foldE f xs st1 = Inr st' \<and> I st'"
  proof (rule Cons.IH [OF 2])
    fix x' st0
    assume "x' \<in> set xs" and i: "I st0"
    then have "x' \<in> set (x # xs)" by simp
    then show "\<exists>st'. f x' st0 = Inr st' \<and> I st'" using i by (rule Cons.prems(2))
  qed
  with 1 show ?case by simp
qed

lemma proper_grid_row:
  assumes "proper_grid g" and "row < length g"
  shows "length (g ! row) = length (g ! 0)"
proof -
  from assms(1) have "list_all (\<lambda>r. length r = length (g ! 0)) g"
    unfolding proper_grid_def by blast
  then have "\<forall>r \<in> set g. length r = length (g ! 0)" by (simp only: list_all_iff)
  with nth_mem [OF assms(2)] show ?thesis by blast
qed

lemma proper_grid_cell:
  assumes p: "proper_grid g" and r: "row < length g" and c: "col < length (g ! 0)"
    and e: "col mod 2 = 0"
  shows "is_int (g ! row ! col)"
proof -
  from p have "list_all (\<lambda>r. list_all (\<lambda>col. is_int (r ! col))
                 (filter (\<lambda>col. col mod 2 = 0) [0 ..< length r])) g"
    unfolding proper_grid_def by blast
  then have "\<forall>r \<in> set g. \<forall>col \<in> set (filter (\<lambda>col. col mod 2 = 0) [0 ..< length r]).
               is_int (r ! col)"
    by (simp only: list_all_iff)
  with nth_mem [OF r]
  have a: "\<forall>col \<in> set (filter (\<lambda>col. col mod 2 = 0) [0 ..< length (g ! row)]). is_int (g ! row ! col)"
    by blast
  have "col < length (g ! row)" using c proper_grid_row [OF p r] by simp
  with e have "col \<in> set (filter (\<lambda>col. col mod 2 = 0) [0 ..< length (g ! row)])" by simp
  with a show ?thesis by blast
qed

lemma is_int_not_mark: "is_int x \<Longrightarrow> x \<noteq> StrV s"
  by (cases x) simp_all

lemma model_1_cell_succeeds:
  assumes p: "proper_grid g" and r: "row < length g" and c: "col < length (g ! 0)"
  shows "\<exists>h' p' vs'. model_1_cell g vd row col (h, q, vs) = Inr (h', p', vs') \<and> length vs' = length vs"
proof (cases "col mod 2 = 0")
  case True
  have "var_setup g vd row col = Inr (cell_variable g vd row col)"
    using r c proper_grid_row [OF p r] by (simp add: var_setup_def cell_variable_def)
  with True show ?thesis by (simp add: model_1_cell_def)
next
  case False
  then have pos: "col > 0" and ev: "(col - 1) mod 2 = 0" by presburger+
  have lt: "col - 1 < length (g ! 0)" using c by simp
  have "is_int (g ! row ! (col - 1))" using p r lt ev by (rule proper_grid_cell)
  then have "g ! row ! (col - 1) \<noteq> StrV ''<''" "g ! row ! (col - 1) \<noteq> StrV ''>''"
    by (simp_all add: is_int_not_mark)
  with False pos r lt proper_grid_row [OF p r] show ?thesis
    by (simp add: model_1_cell_def)
qed

lemma model_2_cell_even:
  assumes p: "proper_grid g" and r: "row < length g" and c: "col < length (g ! 0)"
    and e: "col mod 2 = 0"
  shows "model_2_cell g vd row col (h, q, vs, rd)
           = Inr (h @ [cell_variable g vd row col], add_var q (length h),
                  vs[row := vs ! row @ [length h]],
                  rd[row := rd ! row @ [cur_domain (cell_variable g vd row col)]])"
proof -
  have "var_setup g vd row col = Inr (cell_variable g vd row col)"
    using r c proper_grid_row [OF p r] by (simp add: var_setup_def cell_variable_def)
  with e show ?thesis by (simp add: model_2_cell_def)
qed

lemma model_2_cell_odd:
  assumes p: "proper_grid g" and r: "row < length g" and c: "col < length (g ! 0)"
    and o: "col mod 2 \<noteq> 0"
  shows "model_2_cell g vd row col (h, q, vs, rd) = Inr (h, q, vs, rd)"
proof -
  from o have pos: "col > 0" and ev: "(col - 1) mod 2 = 0" by presburger+
  have lt: "col - 1 < length (g ! 0)" using c by simp
  have "is_int (g ! row ! (col - 1))" using p r lt ev by (rule proper_grid_cell)
  then have "g ! row ! (col - 1) \<noteq> StrV ''<''" "g ! row ! (col - 1) \<noteq> StrV ''>''"
    by (simp_all add: is_int_not_mark)
  with o pos r lt proper_grid_row [OF p r] show ?thesis
    by (simp add: model_2_cell_def)
qed

lemma aligned_update:
  assumes "map length rd = map length vs"
  shows "map length (rd[row := rd ! row @ [x]]) = map length (vs[row := vs ! row @ [y]])"
proof -
  from assms have l: "length rd = length vs" by (rule map_eq_imp_length_eq)
  show ?thesis
  proof (rule nth_equalityI)
    show "length (map length (rd[row := rd ! row @ [x]])) = length (map length (vs[row := vs ! row @ [y]]))"
      using l by simp
  next
    fix i assume "i < length (map length (rd[row := rd ! row @ [x]]))"
    then have i: "i < length rd" by simp
    from assms i l have "length (rd ! i) = length (vs ! i)"
      by (metis length_map nth_map)
    with i l show "map length (rd[row := rd ! row @ [x]]) ! i = map length (vs[row := vs ! row @ [y]]) ! i"
      by (cases "i = row") simp_all
  qed
qed

lemma model_2_cell_succeeds:
  assumes p: "proper_grid g" and r: "row < length g" and c: "col < length (g ! 0)"
    and a: "domains_aligned st"
  shows "\<exists>st'. model_2_cell g vd row col st = Inr st' \<and> domains_aligned st'"
proof -
  obtain h q vs rd where st: "st = (h, q, vs, rd)" by (cases st)
  show ?thesis
  proof (cases "col mod 2 = 0")
    case True
    from a st have "map length rd = map length vs" by (simp add: domains_aligned_def)
    from aligned_update [OF this] model_2_cell_even [OF p r c True, of vd h q vs rd] st a
    show ?thesis by (simp add: domains_aligned_def)
  next
    case False
    from model_2_cell_odd [OF p r c False, of vd h q vs rd] st a show ?thesis by simp
  qed
qed

lemma model_1_rows_succeed:
  assumes p: "proper_grid g"
  shows "\<exists>h p0 vs. foldE (\<lambda>row. foldE (model_1_cell g vd row) [0 ..< length (g ! 0)]) [0 ..< length g]
                     ([], CSP, replicate (length g) []) = Inr (h, p0, vs)"
proof -
  let ?I = "\<lambda>st :: heap \<times> csp \<times> vid list list. True"
  have row: "\<exists>st'. foldE (model_1_cell g vd row) [0 ..< length (g ! 0)] st = Inr st' \<and> ?I st'"
    if "row \<in> set [0 ..< length g]" for row st
  proof (rule foldE_succeeds [where I = ?I])
    fix col and st1 :: "heap \<times> csp \<times> vid list list"
    assume "col \<in> set [0 ..< length (g ! 0)]"
    then have c: "col < length (g ! 0)" by simp
    from that have r: "row < length g" by simp
    obtain h q vs where "st1 = (h, q, vs)" by (cases st1)
    with model_1_cell_succeeds [OF p r c, of vd h q vs]
    show "\<exists>st'. model_1_cell g vd row col st1 = Inr st' \<and> True" by auto
  qed simp
  have "\<exists>st'. foldE (\<lambda>row. foldE (model_1_cell g vd row) [0 ..< length (g ! 0)]) [0 ..< length g]
                     ([], CSP, replicate (length g) []) = Inr st' \<and> ?I st'"
    by (rule foldE_succeeds [where I = ?I]) (use row in auto)
  then show ?thesis by (metis prod_cases3)
qed

lemma all_diff_valid_defined:
  assumes "n \<le> length t"
  shows "\<exists>b. all_diff_valid t n = Inr b"
proof -
  have inner: "\<exists>b'. foldE (\<lambda>j valid. bindE (py_index t i) (\<lambda>a. bindE (py_index t j) (\<lambda>b.
                  Inr (if a = b then False else valid)))) [i + 1 ..< n] b = Inr b' \<and> True"
    if "i \<in> set [0 ..< n]" for i b
  proof (rule foldE_succeeds [where I = "\<lambda>_. True"])
    fix j and valid :: bool
    assume "j \<in> set [i + 1 ..< n]"
    with that assms have "i < length t" "j < length t" by simp_all
    then show "\<exists>b'. bindE (py_index t i) (\<lambda>a. bindE (py_index t j) (\<lambda>b.
                  Inr (if a = b then False else valid))) = Inr b' \<and> True"
      by simp
  qed simp
  have "\<exists>b. all_diff_valid t n = Inr b \<and> True"
    unfolding all_diff_valid_def
    by (rule foldE_succeeds [where I = "\<lambda>_. True"]) (rule inner, simp_all)
  then show ?thesis by blast
qed

lemma all_diff_constraint_succeeds:
  assumes "n \<le> length domains"
  shows "\<exists>p'. all_diff_constraint p vars domains n = Inr p'"
proof -
  have "\<exists>sat. foldE (\<lambda>possible_tuple sat_tuples.
                    bindE (all_diff_valid possible_tuple n) (\<lambda>valid.
                      Inr (if valid then sat_tuples @ [possible_tuple] else sat_tuples)))
              (every_tuple domains) [] = Inr sat \<and> True"
  proof (rule foldE_succeeds [where I = "\<lambda>_. True"])
    fix t and acc :: "pyval list list"
    assume "t \<in> set (every_tuple domains)"
    then have "n \<le> length t" using assms by (simp add: every_tuple_length)
    from all_diff_valid_defined [OF this] obtain b where "all_diff_valid t n = Inr b" by blast
    then show "\<exists>st'. bindE (all_diff_valid t n) (\<lambda>valid.
                      Inr (if valid then acc @ [t] else acc)) = Inr st' \<and> True"
      by simp
  qed simp
  then show ?thesis by (auto simp: all_diff_constraint_def)
qed

lemma binary_constraint_succeeds:
  assumes "i < length vs" "j < length vs" "k < length vs"
    and "j < length (vs ! i)" "k < length (vs ! i)" "i < length (vs ! j)" "i < length (vs ! k)"
  shows "\<exists>p'. binary_constraint p h vs b i j k i j k = Inr p'"
  using assms by (cases b) (simp_all add: binary_constraint_def)

lemma model_1_pairs_succeed:
  assumes len: "length vs = n" and wide: "\<And>r. r < n \<Longrightarrow> n \<le> length (vs ! r)"
  shows "\<exists>p'. model_1_pairs h vs n p = Inr p'"
proof -
  have k: "\<exists>q'. bindE (binary_constraint q h vs True i j k i j k)
                   (\<lambda>p'. binary_constraint p' h vs False i j k i j k) = Inr q' \<and> True"
    if "i < n" "j < n" "k < n" for i j k q
  proof -
    have f: "i < length vs" "j < length vs" "k < length vs"
      "j < length (vs ! i)" "k < length (vs ! i)" "i < length (vs ! j)" "i < length (vs ! k)"
      using that len wide [of i] wide [of j] wide [of k] by simp_all
    from binary_constraint_succeeds [OF f, of q h True] obtain q1 where
      1: "binary_constraint q h vs True i j k i j k = Inr q1" by blast
    from binary_constraint_succeeds [OF f, of q1 h False] obtain q2 where
      "binary_constraint q1 h vs False i j k i j k = Inr q2" by blast
    with 1 show ?thesis by simp
  qed
  have j: "\<exists>q'. foldE (\<lambda>k p. bindE (binary_constraint p h vs True i j k i j k)
                     (\<lambda>p'. binary_constraint p' h vs False i j k i j k)) [j + 1 ..< n] q = Inr q' \<and> True"
    if "i < n" "j < n" for i j q
    by (rule foldE_succeeds [where I = "\<lambda>_. True"]) (rule k, use that in simp_all)
  have i: "\<exists>q'. foldE (\<lambda>j. foldE (\<lambda>k p. bindE (binary_constraint p h vs True i j k i j k)
                     (\<lambda>p'. binary_constraint p' h vs False i j k i j k)) [j + 1 ..< n]) [0 ..< n] q
                 = Inr q' \<and> True"
    if "i < n" for i q
    by (rule foldE_succeeds [where I = "\<lambda>_. True"]) (rule j, use that in simp_all)
  have "\<exists>q'. model_1_pairs h vs n p = Inr q' \<and> True"
    unfolding model_1_pairs_def
    by (rule foldE_succeeds [where I = "\<lambda>_. True"]) (rule i, simp_all)
  then show ?thesis by blast
qed

lemma rows_shape:
  assumes loop: "foldE (\<lambda>row. foldE (model_1_cell g vd row) [0 ..< num_col]) [0 ..< n]
                   ([], CSP, replicate n []) = Inr (h, p0, vs)"
  shows "length vs = n" and "\<And>r. r < n \<Longrightarrow> length (vs ! r) = (num_col + 1) div 2"
  using model_1_rows [OF loop order_refl] by simp_all

lemma model_1_succeeds:
  assumes p: "proper_grid g"
  shows "\<exists>q vs h. futoshiki_csp_model_1 g = Inr (q, vs, h)"
proof -
  let ?vd = "map (\<lambda>i. IntV (int i + 1)) [0 ..< length g]"
  from p have ne: "g \<noteq> []" and wide: "length g \<le> (length (g ! 0) + 1) div 2"
    unfolding proper_grid_def by blast+
  from model_1_rows_succeed [OF p, of ?vd] obtain h p0 vs where
    loop: "foldE (\<lambda>row. foldE (model_1_cell g ?vd row) [0 ..< length (g ! 0)]) [0 ..< length g]
             ([], CSP, replicate (length g) []) = Inr (h, p0, vs)" by blast
  note sh = rows_shape [OF loop]
  have "\<And>r. r < length g \<Longrightarrow> length g \<le> length (vs ! r)" using sh(2) wide by simp
  from model_1_pairs_succeed [OF sh(1) this, of h p0] obtain p' where
    "model_1_pairs h vs (length g) p0 = Inr p'" by blast
  with loop ne show ?thesis
    by (simp add: futoshiki_csp_model_1_def Let_def py_index_def)
qed

lemma model_2_rows_succeed:
  assumes p: "proper_grid g"
  shows "\<exists>st. foldE (\<lambda>row. foldE (model_2_cell g vd row) [0 ..< length (g ! 0)]) [0 ..< length g]
                ([], CSP, replicate (length g) [], replicate (length g) []) = Inr st
              \<and> domains_aligned st"
proof (rule foldE_succeeds [where I = domains_aligned])
  fix row and st :: "heap \<times> csp \<times> vid list list \<times> pyval list list list"
  assume "row \<in> set [0 ..< length g]" and a: "domains_aligned st"
  then have r: "row < length g" by simp
  show "\<exists>st'. foldE (model_2_cell g vd row) [0 ..< length (g ! 0)] st = Inr st' \<and> domains_aligned st'"
  proof (rule foldE_succeeds [where I = domains_aligned])
    fix col and st1 :: "heap \<times> csp \<times> vid list list \<times> pyval list list list"
    assume "col \<in> set [0 ..< length (g ! 0)]" and a1: "domains_aligned st1"
    then have c: "col < length (g ! 0)" by simp
    from p r c a1 show "\<exists>st'. model_2_cell g vd row col st1 = Inr st' \<and> domains_aligned st'"
      by (rule model_2_cell_succeeds)
  qed (rule a)
next
  show "domains_aligned ([], CSP, replicate (length g) [], replicate (length g) [])"
    by (simp add: domains_aligned_def)
qed

lemma column_collected:
  assumes "m \<le> length vs" and "\<And>j. j < m \<Longrightarrow> i < length (vs ! j)"
  shows "\<exists>cv cd. foldE (\<lambda>j (col_vars, col_domains).
                    bindE (bindE (py_index vs j) (\<lambda>r. py_index r i)) (\<lambda>var.
                      Inr (col_vars @ [var], col_domains @ [cur_domain (h ! var)])))
              [0 ..< m] ([], []) = Inr (cv, cd) \<and> length cd = m"
  using assms
proof (induction m)
  case 0
  show ?case by simp
next
  case (Suc m)
  from Suc.prems have "m \<le> length vs" "\<And>j. j < m \<Longrightarrow> i < length (vs ! j)" by simp_all
  from Suc.IH [OF this] obtain cv cd where
    1: "foldE (\<lambda>j (col_vars, col_domains).
                    bindE (bindE (py_index vs j) (\<lambda>r. py_index r i)) (\<lambda>var.
                      Inr (col_vars @ [var], col_domains @ [cur_domain (h ! var)])))
              [0 ..< m] ([], []) = Inr (cv, cd)" and 2: "length cd = m" by blast
  have m: "m < length vs" "i < length (vs ! m)" using Suc.prems by simp_all
  have "(case (cv, cd) of (col_vars, col_domains) \<Rightarrow>
           bindE (bindE (py_index vs m) (\<lambda>r. py_index r i)) (\<lambda>var.
             Inr (col_vars @ [var], col_domains @ [cur_domain (h ! var)])))
        = Inr (cv @ [vs ! m ! i], cd @ [cur_domain (h ! (vs ! m ! i))])"
    using m by simp
  with 1 2 show ?case unfolding foldE_upt_Suc by fastforce
qed

lemma model_2_lines_succeed:
  assumes len: "length vs = n" and i: "i < n"
    and wide: "\<And>r. r < n \<Longrightarrow> n \<le> length (vs ! r)"
    and rd: "n \<le> length (rd ! i)"
  shows "\<exists>p'. model_2_lines h vs rd n i p = Inr p'"
proof -
  have "\<And>j. j < n \<Longrightarrow> i < length (vs ! j)" using wide i by fastforce
  with column_collected [of n vs i h] len obtain cv cd where
    col: "foldE (\<lambda>j (col_vars, col_domains).
                    bindE (bindE (py_index vs j) (\<lambda>r. py_index r i)) (\<lambda>var.
                      Inr (col_vars @ [var], col_domains @ [cur_domain (h ! var)])))
              [0 ..< n] ([], []) = Inr (cv, cd)" and lcd: "length cd = n" by auto
  from all_diff_constraint_succeeds [OF rd, of p "vs ! i"] obtain p1 where
    1: "all_diff_constraint p (vs ! i) (rd ! i) n = Inr p1" by blast
  have "n \<le> length cd" using lcd by simp
  from all_diff_constraint_succeeds [OF this, of p1 cv] obtain p2 where
    2: "all_diff_constraint p1 cv cd n = Inr p2" by blast
  from col 1 2 show ?thesis by (simp add: model_2_lines_def)
qed

lemma model_2_succeeds:
  assumes p: "proper_grid g"
  shows "\<exists>q vs h. futoshiki_csp_model_2 g = Inr (q, vs, h)"
proof -
  let ?vd = "map (\<lambda>i. IntV (int i + 1)) [0 ..< length g]"
  let ?n = "length g"
  from p have ne: "g \<noteq> []" and wide: "length g \<le> (length (g ! 0) + 1) div 2"
    unfolding proper_grid_def by blast+
  from model_2_rows_succeed [OF p, of ?vd] obtain st where
    loop: "foldE (\<lambda>row. foldE (model_2_cell g ?vd row) [0 ..< length (g ! 0)]) [0 ..< length g]
             ([], CSP, replicate (length g) [], replicate (length g) []) = Inr st"
    and al: "domains_aligned st" by blast
  obtain h p0 vs rd where st: "st = (h, p0, vs, rd)" by (cases st)
  from model_2_rows_strip [OF loop] st
  have loop1: "foldE (\<lambda>row. foldE (model_1_cell g ?vd row) [0 ..< length (g ! 0)]) [0 ..< length g]
             ([], CSP, replicate (length g) []) = Inr (h, p0, vs)"
    by (simp add: strip_domains_def)
  note sh = rows_shape [OF loop1]
  have w: "\<And>r. r < ?n \<Longrightarrow> ?n \<le> length (vs ! r)" using sh(2) wide by simp
  from al st have ml: "map length rd = map length vs" "length rd = length vs"
    by (simp_all add: domains_aligned_def)
  have rdw: "?n \<le> length (rd ! i)" if "i < ?n" for i
  proof -
    from that sh(1) ml have "length (rd ! i) = length (vs ! i)"
      by (metis length_map nth_map)
    with w [OF that] show ?thesis by simp
  qed
  have "\<exists>p'. foldE (model_2_lines h vs rd ?n) [0 ..< ?n] p0 = Inr p' \<and> True"
  proof (rule foldE_succeeds [where I = "\<lambda>_. True"])
    fix i and q :: csp
    assume "i \<in> set [0 ..< ?n]"
    then have i: "i < ?n" by simp
    from model_2_lines_succeed [OF sh(1) i w rdw [OF i], of h q]
    show "\<exists>st'. model_2_lines h vs rd ?n i q = Inr st' \<and> True" by simp
  qed simp
  then obtain p' where "foldE (model_2_lines h vs rd ?n) [0 ..< ?n] p0 = Inr p'" by blast
  with loop st ne show ?thesis
    by (simp add: futoshiki_csp_model_2_def Let_def py_index_def)
qed


section \<open>Properties of the propagators\<close>

text \<open>
  C1. When prop_GAC, started without a newly assigned variable, returns True, then in the
  store it leaves, for every constraint of the CSP, every unassigned variable of its scope
  and every value of the variable's current domain, has_support is true: the result is a
  fixpoint of generalized arc consistency.
\<close>

theorem prop_GAC_fixpoint:
  assumes "prop_GAC p None s = Some (Inr (True, pruned, s'))"
  shows "\<forall>c \<in> set (constraints p). \<forall>v \<in> set (get_unasgn_vars s' c).
           \<forall>val \<in> set (cur_domain (s' v)). has_support s' c v val"
proof -
  from assms have run: "gac_queue p (constraints p) 0 s [] = Some (Inr (True, pruned, s'))"
    by (simp add: prop_GAC_def get_all_cons_def)
  have "pending_or_consistent p (constraints p) 0 s"
    by (simp add: pending_or_consistent_def list_all_iff)
  with gac_queue_fixpoint [OF run] have "list_all (arc_consistent s') (constraints p)" by blast
  then show ?thesis by (simp add: arc_consistent_def list_all_iff)
qed

theorem prop_GAC_fixpoint_witness:
  "prop_GAC demo_csp None demo_store = Some (Inr (True, [(1, IntV 1)], demo_pruned))
   \<and> has_support demo_pruned ne_constraint 0 (IntV 1)
   \<and> has_support demo_pruned ne_constraint 1 (IntV 2)"
proof -
  have run: "prop_GAC demo_csp None demo_store = Some (Inr (True, [(1, IntV 1)], demo_pruned))"
    by (rule demo_gac)
  have c: "ne_constraint \<in> set (constraints demo_csp)" by (simp add: demo_csp_def)
  have v: "get_unasgn_vars demo_pruned ne_constraint = [0, 1]"
    by (simp add: demo_defs)
  have d0: "cur_domain (demo_pruned 0) = [IntV 1]" by (simp add: demo_defs)
  have d1: "cur_domain (demo_pruned 1) = [IntV 2]" by (simp add: demo_defs)
  have m0: "0 \<in> set (get_unasgn_vars demo_pruned ne_constraint)" by (simp add: v)
  have m1: "1 \<in> set (get_unasgn_vars demo_pruned ne_constraint)" by (simp add: v)
  have e0: "IntV 1 \<in> set (cur_domain (demo_pruned 0))" unfolding d0 by simp
  have e1: "IntV 2 \<in> set (cur_domain (demo_pruned 1))" unfolding d1 by simp
  from prop_GAC_fixpoint [OF run] c m0 e0
  have a: "has_support demo_pruned ne_constraint 0 (IntV 1)" by blast
  from prop_GAC_fixpoint [OF run] c m1 e1
  have b: "has_support demo_pruned ne_constraint 1 (IntV 2)" by blast
  from run a b show ?thesis by simp
qed

text \<open>
  C2. In a store whose current domains list no value twice, prop_FC and prop_GAC return,
  with either outcome, a list that is exactly the journal of what the call removed: no
  pair occurs in it twice, every pair names a value that was in the current domain of its
  variable at the start, and the store left behind is the initial store with exactly the
  listed values taken out of the current domains (nothing else is changed).
\<close>

theorem prune_lists_exact:
  assumes "distinct_domains s"
  shows "(\<exists>ok pruned s'. prop_FC p newVar s = Inr (ok, pruned, s') \<and> journal s pruned s')
       \<and> (\<exists>ok pruned s'. prop_GAC p newVar s = Some (Inr (ok, pruned, s')) \<and> journal s pruned s')"
  using prop_FC_journal [OF assms] prop_GAC_journal [OF assms] by blast

theorem prune_lists_exact_witness:
  "distinct_domains demo_half
   \<and> prop_FC demo_csp (Some 0) demo_half = Inr (True, [(1, IntV 1)], demo_half_pruned)
   \<and> journal demo_half [(1, IntV 1)] demo_half_pruned
   \<and> prop_GAC demo_csp (Some 0) demo_half = Some (Inr (True, [(1, IntV 1)], demo_half_pruned))"
proof -
  have d: "distinct_domains demo_half" by (rule demo_half_distinct)
  from prune_lists_exact [OF d, of demo_csp "Some 0"] demo_half_fc
  have "journal demo_half [(1, IntV 1)] demo_half_pruned" by auto
  with d demo_half_fc demo_half_gac show ?thesis by simp
qed

text \<open>
  C3. In a store whose current domains list no value twice, prop_FC does what forward
  checking is specified to do: it takes all constraints (no new variable) or the
  constraints touching the new variable, in order; it examines those with exactly one
  unassigned variable; from that variable it prunes precisely the values of its current
  domain that have no support in the constraint; it returns False, with the prunes so
  far, as soon as such a domain is empty, and True at the end otherwise.
\<close>

theorem prop_FC_forward_check:
  "distinct_domains s \<Longrightarrow> prop_FC p newVar s = Inr (forward_check (touching p newVar) s [])"
  by (simp add: prop_FC_def touching_eq fc_cons_forward_check)

theorem prop_FC_forward_check_witness:
  "distinct_domains demo_half
   \<and> prop_FC demo_csp (Some 0) demo_half = Inr (forward_check (touching demo_csp (Some 0)) demo_half [])
   \<and> forward_check (touching demo_csp (Some 0)) demo_half [] = (True, [(1, IntV 1)], demo_half_pruned)"
proof -
  have d: "distinct_domains demo_half" by (rule demo_half_distinct)
  from prop_FC_forward_check [OF d, of demo_csp "Some 0"] demo_half_fc d show ?thesis by simp
qed

text \<open>
  C4. prop_GAC terminates on every CSP, every store and with or without a new variable,
  although the queue grows while it is traversed, and it ends in one of two ways. With
  True the queue is exhausted at a fixpoint: every constraint that was on the queue (the
  ones it started with and those of a variable that lost a value) is arc consistent in
  the store left behind. With False it returned early because the current domain of an
  unassigned variable in the scope of a constraint of the CSP is empty. The logic error
  of prune_value ends a run only from a store that lists a value twice in a domain.
\<close>

theorem prop_GAC_terminates:
  "\<exists>r. prop_GAC p newVar s = Some r
     \<and> (case r of
          Inl e \<Rightarrow> \<not> distinct_domains s
        | Inr (ok, pruned, s') \<Rightarrow>
            if ok
            then list_all (arc_consistent s')
                   (filter (on_worklist (touching p newVar) s s') (constraints p))
            else list_ex (\<lambda>c. list_ex (\<lambda>v. cur_domain (s' v) = []) (get_unasgn_vars s' c))
                   (constraints p))"
proof -
  have sub: "set (touching p newVar) \<subseteq> set (constraints p)"
    by (auto simp: touching_def split: option.splits)
  with gac_queue_total [of p "constraints p" "touching p newVar" 0 s "[]"]
  obtain r where run: "gac_queue p (touching p newVar) 0 s [] = Some r" by auto
  then have r: "prop_GAC p newVar s = Some r" by (simp add: prop_GAC_def touching_eq)
  show ?thesis
  proof (cases r)
    case (Inl e)
    have "\<not> distinct_domains s"
    proof
      assume "distinct_domains s"
      from prop_GAC_journal [OF this, of p newVar] r Inl show False by auto
    qed
    with r Inl show ?thesis by simp
  next
    case (Inr res)
    obtain ok pruned s' where res: "res = (ok, pruned, s')" by (cases res)
    from gac_queue_ending [OF run, of "touching p newVar" s] sub worklist_initial Inr res
    have "if ok then list_all (arc_consistent s')
                   (filter (on_worklist (touching p newVar) s s') (constraints p))
          else list_ex (\<lambda>c. list_ex (\<lambda>v. cur_domain (s' v) = []) (get_unasgn_vars s' c))
                 (constraints p)" by blast
    with r Inr res show ?thesis by simp
  qed
qed

theorem prop_GAC_terminates_witness:
  "prop_GAC demo_csp None demo_store = Some (Inr (True, [(1, IntV 1)], demo_pruned))
   \<and> arc_consistent demo_pruned ne_constraint
   \<and> prop_GAC demo_csp None demo_wipe = Some (Inr (False, [(0, IntV 1)], demo_wiped))
   \<and> list_ex (\<lambda>v. cur_domain (demo_wiped v) = []) (get_unasgn_vars demo_wiped ne_constraint)"
proof -
  from prop_GAC_terminates [of demo_csp None demo_store] demo_gac
  have "list_all (arc_consistent demo_pruned)
          (filter (on_worklist (touching demo_csp None) demo_store demo_pruned) (constraints demo_csp))"
    by auto
  then have a: "arc_consistent demo_pruned ne_constraint"
    by (simp add: demo_csp_def touching_def on_worklist_def)
  from prop_GAC_terminates [of demo_csp None demo_wipe] demo_wipe_gac
  have "list_ex (\<lambda>c. list_ex (\<lambda>v. cur_domain (demo_wiped v) = []) (get_unasgn_vars demo_wiped c))
          (constraints demo_csp)"
    by auto
  then have b: "list_ex (\<lambda>v. cur_domain (demo_wiped v) = []) (get_unasgn_vars demo_wiped ne_constraint)"
    by (simp add: demo_csp_def)
  from demo_gac a demo_wipe_gac b show ?thesis by simp
qed

text \<open>
  C5. prop_BT without a new variable returns True and no prunes. With a new variable V it
  returns False exactly when some constraint of the CSP whose scope contains V has no
  unassigned variable and check fails on the assigned values of its scope, and True
  otherwise. The prune list is always empty and the store is left as it was.
\<close>

theorem prop_BT_checks_assigned_constraints:
  "prop_BT p None s = (True, [], s)
   \<and> prop_BT p (Some v) s =
       (\<not> (\<exists>c \<in> set (constraints p). v \<in> set (scope c) \<and> get_n_unasgn s c = 0
              \<and> \<not> check c (map (\<lambda>var. get_assigned_value (s var)) (scope c))),
        [], s)"
  by (auto simp: prop_BT_def bt_cons_iff get_cons_with_var_def get_scope_def list_ex_iff)

theorem prop_BT_checks_assigned_constraints_witness:
  "prop_BT demo_csp None demo_assigned = (True, [], demo_assigned)
   \<and> prop_BT demo_csp (Some 0) demo_assigned = (False, [], demo_assigned)"
  using prop_BT_checks_assigned_constraints [of demo_csp demo_assigned 0]
  by (simp add: demo_defs)

text \<open>
  C6. For a CSP with at least one variable, ord_mrv returns the variable at the first
  position of the CSP's variable list whose current domain is smallest: no variable of
  the list, assigned or not, has a smaller current domain, and every variable before it
  has a strictly larger one. Over three unassigned variables with 3, 1 and 2 values left
  it returns the second variable.
\<close>

theorem ord_mrv_first_minimum:
  "(get_all_vars p \<noteq> [] \<longrightarrow>
      (\<exists>k < length (get_all_vars p).
           ord_mrv p s = Inr (get_all_vars p ! k)
         \<and> (\<forall>j < length (get_all_vars p).
              length (cur_domain (s (get_all_vars p ! k))) \<le> length (cur_domain (s (get_all_vars p ! j))))
         \<and> (\<forall>j < k.
              length (cur_domain (s (get_all_vars p ! k))) < length (cur_domain (s (get_all_vars p ! j))))))
   \<and> ord_mrv mrv_csp mrv_store = Inr 1"
proof (intro conjI impI)
  assume ne: "get_all_vars p \<noteq> []"
  then obtain v vs where vs: "get_all_vars p = v # vs" by (cases "get_all_vars p") auto
  have "\<exists>x \<in> set (get_all_vars p). enat (length (cur_domain (s x))) < \<infinity>"
    using vs by auto
  from mrv_loop_pick [OF this, of v] vs
  show "\<exists>k < length (get_all_vars p).
           ord_mrv p s = Inr (get_all_vars p ! k)
         \<and> (\<forall>j < length (get_all_vars p).
              length (cur_domain (s (get_all_vars p ! k))) \<le> length (cur_domain (s (get_all_vars p ! j))))
         \<and> (\<forall>j < k.
              length (cur_domain (s (get_all_vars p ! k))) < length (cur_domain (s (get_all_vars p ! j))))"
    by (auto simp: ord_mrv_def)
next
  show "ord_mrv mrv_csp mrv_store = Inr 1"
    by (simp add: ord_mrv_def get_all_vars_def mrv_csp_def mrv_store_def cur_domain_def
        Variable_def mrv_loop_step)
qed

theorem ord_mrv_first_minimum_witness:
  "get_all_vars demo_csp \<noteq> [] \<and> ord_mrv demo_csp demo_store = Inr 0
   \<and> length (cur_domain (demo_store 0)) \<le> length (cur_domain (demo_store 1))"
proof -
  have ne: "get_all_vars demo_csp \<noteq> []" by (simp add: get_all_vars_def demo_csp_def)
  from ord_mrv_first_minimum [of demo_csp demo_store] ne
  obtain k where k: "k < length (get_all_vars demo_csp)"
    "ord_mrv demo_csp demo_store = Inr (get_all_vars demo_csp ! k)"
    "\<forall>j < length (get_all_vars demo_csp).
        length (cur_domain (demo_store (get_all_vars demo_csp ! k)))
          \<le> length (cur_domain (demo_store (get_all_vars demo_csp ! j)))"
    by blast
  have two: "get_all_vars demo_csp = [0, 1]" by (simp add: get_all_vars_def demo_csp_def)
  have sizes: "length (cur_domain (demo_store 0)) = 1" "length (cur_domain (demo_store 1)) = 2"
    by (simp_all add: demo_defs)
  from k(1) two have "k = 0 \<or> k = 1" by auto
  moreover have "k \<noteq> 1"
  proof
    assume "k = 1"
    with k(3) [rule_format, of 0] two sizes show False by simp
  qed
  ultimately have "k = 0" by simp
  with k(2) two ne sizes show ?thesis by simp
qed

text \<open>
  C7. In a store whose current domains list no value twice, prop_FC and prop_GAC never
  hand prune_value a value that is absent from the variable's current domain (the logic
  error of prune_value is never reached: the call returns an outcome), and the prunes
  they record, one per call of prune_value, contain no pair twice.
\<close>

theorem prune_value_never_fails:
  assumes "distinct_domains s"
  shows "(\<exists>ok pruned s'. prop_FC p newVar s = Inr (ok, pruned, s') \<and> distinct pruned)
       \<and> (\<exists>ok pruned s'. prop_GAC p newVar s = Some (Inr (ok, pruned, s')) \<and> distinct pruned)"
proof -
  have "journal s pr s' \<Longrightarrow> distinct pr" for pr s' by (simp add: journal_def)
  with prop_FC_journal [OF assms] prop_GAC_journal [OF assms] show ?thesis by blast
qed

theorem prune_value_never_fails_witness:
  "distinct_domains demo_store
   \<and> prop_FC demo_csp None demo_store \<noteq> Inl LogicError
   \<and> prop_GAC demo_csp None demo_store \<noteq> Some (Inl LogicError)"
proof -
  have d: "distinct_domains demo_store" by (rule demo_store_distinct)
  from prune_value_never_fails [OF d, of demo_csp None] d show ?thesis by auto
qed

section \<open>Properties of the models\<close>






text \<open>
  C10, as amended. On a proper grid both models return. Whenever a model returns, every
  cell at an even column below the width of the first row has its own entry in the list
  of lists variables, and that entry is a variable of the CSP that is unassigned, with
  its whole original domain current; the original domain is 1 to n for a cell holding 0,
  n being the number of rows, and the single value of the cell otherwise.
\<close>

theorem cells_become_unassigned_variables:
  "(proper_grid g \<longrightarrow>
      (\<exists>p vs h. futoshiki_csp_model_1 g = Inr (p, vs, h))
    \<and> (\<exists>p vs h. futoshiki_csp_model_2 g = Inr (p, vs, h)))
   \<and> ((futoshiki_csp_model_1 g = Inr (p, vs, h) \<or> futoshiki_csp_model_2 g = Inr (p, vs, h))
        \<and> row < length g \<and> col < length (g ! 0) \<and> col mod 2 = 0 \<longrightarrow>
         vs ! row ! (col div 2) \<in> set (variables p)
       \<and> vs ! row ! (col div 2) < length h
       \<and> original_domain (h ! (vs ! row ! (col div 2)))
           = (if g ! row ! col = IntV 0 then map IntV [1 .. int (length g)] else [g ! row ! col])
       \<and> current_domain (h ! (vs ! row ! (col div 2)))
           = original_domain (h ! (vs ! row ! (col div 2)))
       \<and> assigned_value (h ! (vs ! row ! (col div 2))) = None)"
proof (rule conjI)
  show "proper_grid g \<longrightarrow>
      (\<exists>p vs h. futoshiki_csp_model_1 g = Inr (p, vs, h))
    \<and> (\<exists>p vs h. futoshiki_csp_model_2 g = Inr (p, vs, h))"
    using model_1_succeeds [of g] model_2_succeeds [of g] by blast
next
  show "(futoshiki_csp_model_1 g = Inr (p, vs, h) \<or> futoshiki_csp_model_2 g = Inr (p, vs, h))
        \<and> row < length g \<and> col < length (g ! 0) \<and> col mod 2 = 0 \<longrightarrow>
         vs ! row ! (col div 2) \<in> set (variables p)
       \<and> vs ! row ! (col div 2) < length h
       \<and> original_domain (h ! (vs ! row ! (col div 2)))
           = (if g ! row ! col = IntV 0 then map IntV [1 .. int (length g)] else [g ! row ! col])
       \<and> current_domain (h ! (vs ! row ! (col div 2)))
           = original_domain (h ! (vs ! row ! (col div 2)))
       \<and> assigned_value (h ! (vs ! row ! (col div 2))) = None"
  proof (rule impI)
  assume a: "(futoshiki_csp_model_1 g = Inr (p, vs, h) \<or> futoshiki_csp_model_2 g = Inr (p, vs, h))
        \<and> row < length g \<and> col < length (g ! 0) \<and> col mod 2 = 0"
  then have r: "row < length g" and c: "col < length (g ! 0)" and e: "col mod 2 = 0" by simp_all
  from a model_1_rows_result [of g p vs h] model_2_rows_result [of g p vs h]
  obtain p0 where
    loop: "foldE (\<lambda>row. foldE (model_1_cell g (map (\<lambda>i. IntV (int i + 1)) [0 ..< length g]) row)
                   [0 ..< length (g ! 0)]) [0 ..< length g] ([], CSP, replicate (length g) [])
              = Inr (h, p0, vs)" and v: "variables p = variables p0"
    by blast
  from cells_from_rows [OF loop r c e] v
  show "vs ! row ! (col div 2) \<in> set (variables p)
       \<and> vs ! row ! (col div 2) < length h
       \<and> original_domain (h ! (vs ! row ! (col div 2)))
           = (if g ! row ! col = IntV 0 then map IntV [1 .. int (length g)] else [g ! row ! col])
       \<and> current_domain (h ! (vs ! row ! (col div 2)))
           = original_domain (h ! (vs ! row ! (col div 2)))
       \<and> assigned_value (h ! (vs ! row ! (col div 2))) = None"
    by (simp add: cell_variable_def Variable_def var_domain_upto)
  qed
qed

theorem cells_become_unassigned_variables_witness:
  "proper_grid grid_2x2
   \<and> (\<exists>p vs h. futoshiki_csp_model_1 grid_2x2 = Inr (p, vs, h)
        \<and> original_domain (h ! (vs ! 0 ! 0)) = [IntV 2]
        \<and> assigned_value (h ! (vs ! 0 ! 0)) = None
        \<and> original_domain (h ! (vs ! 0 ! 1)) = [IntV 1, IntV 2]
        \<and> assigned_value (h ! (vs ! 0 ! 1)) = None)
   \<and> (\<exists>p vs h. futoshiki_csp_model_2 grid_2x2 = Inr (p, vs, h)
        \<and> original_domain (h ! (vs ! 0 ! 0)) = [IntV 2]
        \<and> assigned_value (h ! (vs ! 0 ! 0)) = None
        \<and> original_domain (h ! (vs ! 0 ! 1)) = [IntV 1, IntV 2]
        \<and> assigned_value (h ! (vs ! 0 ! 1)) = None)"
proof -
  have pg: "proper_grid grid_2x2" by code_simp
  have r: "0 < length grid_2x2" by (simp add: grid_2x2_def)
  have c0: "0 < length (grid_2x2 ! 0)" and c2: "2 < length (grid_2x2 ! 0)"
    by (simp_all add: grid_2x2_def)
  have cells: "original_domain (h ! (vs ! 0 ! 0)) = [IntV 2]
        \<and> assigned_value (h ! (vs ! 0 ! 0)) = None
        \<and> original_domain (h ! (vs ! 0 ! 1)) = [IntV 1, IntV 2]
        \<and> assigned_value (h ! (vs ! 0 ! 1)) = None"
    if m: "futoshiki_csp_model_1 grid_2x2 = Inr (p, vs, h)
             \<or> futoshiki_csp_model_2 grid_2x2 = Inr (p, vs, h)" for p vs h
  proof -
    have h0: "(futoshiki_csp_model_1 grid_2x2 = Inr (p, vs, h)
                 \<or> futoshiki_csp_model_2 grid_2x2 = Inr (p, vs, h))
              \<and> 0 < length grid_2x2 \<and> 0 < length (grid_2x2 ! 0) \<and> (0 :: nat) mod 2 = 0"
      using m r c0 by simp
    have h2: "(futoshiki_csp_model_1 grid_2x2 = Inr (p, vs, h)
                 \<or> futoshiki_csp_model_2 grid_2x2 = Inr (p, vs, h))
              \<and> 0 < length grid_2x2 \<and> 2 < length (grid_2x2 ! 0) \<and> (2 :: nat) mod 2 = 0"
      using m r c2 by simp
    from cells_become_unassigned_variables [of grid_2x2 p vs h 0 0, THEN conjunct2, rule_format, OF h0]
    have a: "original_domain (h ! (vs ! 0 ! 0)) = [IntV 2]" "assigned_value (h ! (vs ! 0 ! 0)) = None"
      by (simp_all add: grid_2x2_def)
    from cells_become_unassigned_variables [of grid_2x2 p vs h 0 2, THEN conjunct2, rule_format, OF h2]
    have b: "original_domain (h ! (vs ! 0 ! 1)) = [IntV 1, IntV 2]"
      "assigned_value (h ! (vs ! 0 ! 1)) = None"
      by (simp_all add: grid_2x2_def upto_rec1)
    from a b show ?thesis by simp
  qed
  from cells_become_unassigned_variables [of grid_2x2, THEN conjunct1, rule_format, OF pg]
  obtain p1 vs1 h1 p2 vs2 h2 where
    m1: "futoshiki_csp_model_1 grid_2x2 = Inr (p1, vs1, h1)"
    and m2: "futoshiki_csp_model_2 grid_2x2 = Inr (p2, vs2, h2)" by blast
  from cells [of p1 vs1 h1] m1 cells [of p2 vs2 h2] m2 pg show ?thesis by blast
qed

text \<open>
  C10 as first stated does not hold on every grid. The width is read from the first row:
  when the second row is longer, its last cell, holding 3, gets no variable (the four
  variables created all have the domain 1, 2). And a model creates nothing when it
  raises, as on a second row that is shorter than the first.
\<close>

theorem cell_beyond_first_row_gets_no_variable:
  "grid_ragged ! 1 ! 4 = IntV 3
   \<and> \<not> isl (futoshiki_csp_model_1 grid_ragged)
   \<and> snd (snd (projr (futoshiki_csp_model_1 grid_ragged))) = replicate 4 (Variable [IntV 1, IntV 2])
   \<and> \<not> isl (futoshiki_csp_model_2 grid_ragged)
   \<and> snd (snd (projr (futoshiki_csp_model_2 grid_ragged))) = replicate 4 (Variable [IntV 1, IntV 2])
   \<and> futoshiki_csp_model_1 grid_short = Inl IndexError
   \<and> futoshiki_csp_model_2 grid_short = Inl IndexError"
  by code_simp

end
